theory Spec2Isabelle
  imports Main "HOL-Library.AList"
begin

section \<open>JavaScript values and plain objects\<close>

text \<open>
  Option values that occur inside rule configurations and schemas. Numbers are the
  integers that occur as severities and enum literals.
\<close>

datatype jsval =
    JUndefined
  | JNull
  | JBool bool
  | JNum int
  | JStr string
  | JArr "jsval list"
  | JObj "(string \<times> jsval) list"

text \<open>
  A plain object used as a dictionary: its own keys in insertion order, each key once.
  Keys are ordinary property names (rule ids, file names, option names): not
  integer-like, and not names inherited from \<open>Object.prototype\<close>.
\<close>

type_synonym 'v obj = "(string \<times> 'v) list"

definition object_keys :: "'v obj \<Rightarrow> string list" where
  "object_keys ob = map fst ob"

text \<open>\<open>assign(target, source)\<close>: copy the own properties of \<open>source\<close> onto \<open>target\<close>,
  later values winning on a key collision.\<close>

definition assign :: "'v obj \<Rightarrow> 'v obj \<Rightarrow> 'v obj" where
  "assign target source = fold (\<lambda>(k, v) acc. AList.update k v acc) source target"

text \<open>
  The typedef \<open>ruleConfig\<close> of the source: \<open>{array|number}\<close>, a bare severity or an
  array whose first element is the severity.
\<close>

datatype ruleConfig = Severity int | Options "jsval list"

text \<open>An ESLint configuration object: its \<open>rules\<close> section, its \<open>extends\<close> entry when
  present, and whatever other properties it carries (the record's extension).\<close>

record eslintConfig =
  rules :: "ruleConfig obj"
  extends :: "string option"

section \<open>extendFromRecommended\<close>

text \<open>\<open>recConfig.rules[ruleId] === 2 || recConfig.rules[ruleId][0] === 2\<close>\<close>

definition recommended_on :: "ruleConfig \<Rightarrow> bool" where
  "recommended_on c =
     (case c of
        Severity n \<Rightarrow> n = 2
      | Options xs \<Rightarrow> (case xs of [] \<Rightarrow> False | x # _ \<Rightarrow> x = JNum 2))"

text \<open>
  \<open>recRules\<close> is the \<open>rules\<close> table of \<open>conf/eslint.json\<close>, and \<open>isEqual\<close> is
  \<open>lodash.isequal\<close>; both are outside the repository's sources and are parameters. The
  second argument of \<open>isEqual\<close> is \<open>newConfig.rules[ruleId]\<close>, \<open>None\<close> when the
  property is undefined.
\<close>

definition extendFromRecommended ::
  "(ruleConfig \<Rightarrow> ruleConfig option \<Rightarrow> bool) \<Rightarrow> ruleConfig obj \<Rightarrow>
     'a eslintConfig_scheme \<Rightarrow> 'a eslintConfig_scheme" where
  "extendFromRecommended isEqual recRules config =
     (let recIds = filter
            (\<lambda>ruleId. case map_of recRules ruleId of
               Some c \<Rightarrow> recommended_on c | None \<Rightarrow> False)
            (object_keys recRules);
          newRules = fold
            (\<lambda>ruleId rs. case map_of recRules ruleId of
               Some c \<Rightarrow> if isEqual c (map_of rs ruleId) then AList.delete ruleId rs else rs
             | None \<Rightarrow> rs)
            recIds (rules config)
      in config\<lparr>rules := newRules, extends := Some ''eslint:recommended''\<rparr>)"

section \<open>Schema expansion: RuleConfigSet and generateConfigsFromSchema\<close>

text \<open>
  The shapes of a rule's option schema that the code reads: an option descriptor's
  \<open>enum\<close>, \<open>type\<close> and \<open>properties\<close>, and a property's \<open>enum\<close> and \<open>type\<close>. An absent
  property is \<open>None\<close>; an \<open>enum\<close> is an array. A rule's \<open>schema\<close> is \<open>None\<close> when it is
  not an array (\<open>Array.isArray(schema)\<close> is false).
\<close>

datatype propSchema = PropSchema (p_enum: "jsval list option") (p_type: "string option")

datatype optSchema =
  OptSchema (o_enum: "jsval list option") (o_type: "string option")
    (o_properties: "propSchema obj option")

type_synonym schema = "optSchema list option"

datatype jsError = TypeError

text \<open>
  While a RuleConfigSet is built, every configuration in \<open>ruleConfigs\<close> is an array
  object of its own, and \<open>ruleConfigs\<close> only grows at its end. An element of such an
  array is a value, or (after \<open>explodeArray\<close> has wrapped the configurations
  themselves) a reference to the array object at an index of \<open>ruleConfigs\<close>.
  \<open>addErrorSeverity\<close> later mutates these array objects with \<open>unshift\<close>, and a
  reference shows the mutated array.
\<close>

datatype elem = Val jsval | Ref nat

definition explodeArray :: "'a list \<Rightarrow> 'a list list" where
  "explodeArray xs = fold (\<lambda>x accumulator. accumulator @ [[x]]) xs []"

text \<open>An argument of \<open>[].concat(x1, x2)\<close>: an array is spread, anything else is appended.\<close>

definition concat_arg :: "jsval \<Rightarrow> elem list" where
  "concat_arg x = (case x of JArr ys \<Rightarrow> map Val ys | _ \<Rightarrow> [Val x])"

text \<open>\<open>combineArrays(arr1, arr2)\<close> as RuleConfigSet calls it: \<open>arr1\<close> is \<open>this.ruleConfigs\<close>,
  \<open>arr2\<close> the enum values or the combined option objects.\<close>

definition combineArrays :: "elem list list \<Rightarrow> jsval list \<Rightarrow> elem list list" where
  "combineArrays arr1 arr2 =
     (if length arr1 = 0 then explodeArray (map Val arr2)
      else if length arr2 = 0 then explodeArray (map Ref [0..<length arr1])
      else concat (map (\<lambda>x1. map (\<lambda>x2. x1 @ concat_arg x2) arr2) arr1))"

text \<open>
  \<open>Object.keys\<close> in full. An object is kept with its own keys in insertion order;
  \<open>Object.keys\<close> gives the keys that are array indices first, in ascending numeric
  order, then the other keys in insertion order. (\<open>object_keys\<close> above is the same
  list for an object none of whose keys is an array index.)
\<close>

definition array_index :: "string \<Rightarrow> nat option" where
  "array_index k =
     (if k \<noteq> [] \<and> list_all (\<lambda>c. c \<in> set ''0123456789'') k \<and> (k = ''0'' \<or> hd k \<noteq> CHR ''0'')
      then (let n = fold (\<lambda>c n. 10 * n + (of_char c - 48)) k (0 :: nat)
            in if n < 4294967295 then Some n else None)
      else None)"

definition own_keys :: "'v obj \<Rightarrow> string list" where
  "own_keys ob =
     sort_key (\<lambda>k. case array_index k of Some n \<Rightarrow> n | None \<Rightarrow> 0)
       (filter (\<lambda>k. array_index k \<noteq> None) (map fst ob)) @
     filter (\<lambda>k. array_index k = None) (map fst ob)"

text \<open>
  The names every plain object inherits from \<open>Object.prototype\<close>. Read on an object
  that has no own property of that name, each gives a truthy value (a function, or
  for \<open>__proto__\<close> the prototype itself) that has no \<open>concat\<close> method.
\<close>

definition Object_prototype_members :: "string list" where
  "Object_prototype_members =
     [''constructor'', ''toString'', ''toLocaleString'', ''valueOf'', ''hasOwnProperty'',
      ''isPrototypeOf'', ''propertyIsEnumerable'', ''__defineGetter__'', ''__defineSetter__'',
      ''__lookupGetter__'', ''__lookupSetter__'', ''__proto__'']"

text \<open>
  \<open>groupByProperty\<close>: \<open>accumulator\<close> starts as \<open>{}\<close>. For a property the accumulator
  does not have yet, \<open>accumulator[prop]\<close> is undefined and the group \<open>[obj]\<close> is stored,
  unless the name is inherited from \<open>Object.prototype\<close>: then \<open>accumulator[prop]\<close> is
  truthy and \<open>accumulator[prop].concat(obj)\<close> is a TypeError. \<open>group_name\<close> is
  \<open>Object.keys(obj)[0]\<close> as a property name: for an object with no own key it is
  undefined, the property name \<open>"undefined"\<close>.
\<close>

definition group_name :: "jsval obj \<Rightarrow> string" where
  "group_name ob = (case own_keys ob of [] \<Rightarrow> ''undefined'' | k # _ \<Rightarrow> k)"

definition groupByProperty :: "jsval obj list \<Rightarrow> jsError + jsval obj list list" where
  "groupByProperty objects =
     (case fold
        (\<lambda>ob acc.
           case acc of
             Inl err \<Rightarrow> Inl err
           | Inr accumulator \<Rightarrow>
               (case map_of accumulator (group_name ob) of
                  Some grp \<Rightarrow> Inr (AList.update (group_name ob) (grp @ [ob]) accumulator)
                | None \<Rightarrow>
                    if group_name ob \<in> set Object_prototype_members then Inl TypeError
                    else Inr (AList.update (group_name ob) [ob] accumulator)))
        objects (Inr []) of
        Inl err \<Rightarrow> Inl err
      | Inr groupedObj \<Rightarrow>
          Inr (List.map_filter (\<lambda>prop. map_of groupedObj prop) (own_keys groupedObj)))"

text \<open>\<open>combinedObj[prop] = obj[prop]\<close> for every \<open>prop\<close> of \<open>Object.keys(obj)\<close>.\<close>

definition copy_properties :: "jsval obj \<Rightarrow> jsval obj \<Rightarrow> jsval obj" where
  "copy_properties ob combinedObj =
     fold (\<lambda>prop acc. case map_of ob prop of Some v \<Rightarrow> AList.update prop v acc | None \<Rightarrow> acc)
       (own_keys ob) combinedObj"

definition combinePropertyObjects :: "jsval obj list \<Rightarrow> jsval obj list \<Rightarrow> jsval obj list" where
  "combinePropertyObjects objArr1 objArr2 =
     (if length objArr1 = 0 then objArr2
      else if length objArr2 = 0 then objArr1
      else concat (map (\<lambda>obj1. map (\<lambda>obj2. copy_properties obj2 (copy_properties obj1 []))
                                  objArr2) objArr1))"

text \<open>
  The local \<open>objectConfigSet\<close> of \<open>addObject\<close>: \<open>add\<close> and \<open>combine\<close>. In \<open>add\<close>,
  \<open>optionObj[property] = values[idx]\<close> gives \<open>optionObj\<close> its one own property, except
  for the name \<open>__proto__\<close>, whose assignment sets or keeps the prototype and adds no own
  property (a \<open>jsval\<close> does not record an object's prototype).
\<close>

definition objectConfigSet_add :: "string \<Rightarrow> jsval list \<Rightarrow> jsval obj list \<Rightarrow> jsval obj list" where
  "objectConfigSet_add property vals objectConfigs =
     fold (\<lambda>v acc. acc @ [if property = ''__proto__'' then [] else [(property, v)]])
       vals objectConfigs"

definition objectConfigSet_combine :: "jsval obj list \<Rightarrow> jsError + jsval obj list" where
  "objectConfigSet_combine objectConfigs =
     (case groupByProperty objectConfigs of
        Inl err \<Rightarrow> Inl err
      | Inr groups \<Rightarrow>
          Inr (fold (\<lambda>objArr accumulator. combinePropertyObjects accumulator objArr) groups []))"

definition addEnums :: "jsval list \<Rightarrow> elem list list \<Rightarrow> elem list list" where
  "addEnums enums ruleConfigs = ruleConfigs @ combineArrays ruleConfigs enums"

text \<open>\<open>addObject\<close>: \<open>Object.keys(obj.properties)\<close> throws a TypeError when the descriptor
  has no \<open>properties\<close>, and \<open>combine\<close> throws where \<open>groupByProperty\<close> does.\<close>

definition addObject :: "optSchema \<Rightarrow> elem list list \<Rightarrow> jsError + elem list list" where
  "addObject ob ruleConfigs =
     (case o_properties ob of
        None \<Rightarrow> Inl TypeError
      | Some props \<Rightarrow>
          let added = fold
                (\<lambda>prop oc.
                   case map_of props prop of
                     None \<Rightarrow> oc
                   | Some p \<Rightarrow>
                       let oc1 = (case p_enum p of
                                    Some vs \<Rightarrow> objectConfigSet_add prop vs oc
                                  | None \<Rightarrow> oc)
                       in if p_type p = Some ''boolean''
                          then objectConfigSet_add prop [JBool True, JBool False] oc1
                          else oc1)
                (own_keys props) []
          in case objectConfigSet_combine added of
               Inl err \<Rightarrow> Inl err
             | Inr objectConfigs \<Rightarrow>
                 Inr (ruleConfigs @ combineArrays ruleConfigs (map JObj objectConfigs)))"

text \<open>
  \<open>addErrorSeverity\<close>: \<open>unshift\<close> the severity onto every configuration array, in order,
  then put the bare severity in front. \<open>unshifted\<close> gives the arrays as they are once
  every one has been mutated; a reference to the array at index \<open>i\<close> shows that array
  with its severity.
\<close>

definition unshifted :: "int \<Rightarrow> elem list list \<Rightarrow> jsval list list" where
  "unshifted severity ruleConfigs =
     fold (\<lambda>cfg done.
             done @ [JNum severity #
               map (\<lambda>e. case e of
                          Val v \<Rightarrow> v
                        | Ref i \<Rightarrow> if i < length done then JArr (done ! i) else JUndefined)
                   cfg])
          ruleConfigs []"

definition addErrorSeverity :: "int option \<Rightarrow> elem list list \<Rightarrow> ruleConfig list" where
  "addErrorSeverity severity ruleConfigs =
     (let sev = (case severity of None \<Rightarrow> 2 | Some n \<Rightarrow> if n = 0 then 2 else n)
      in Severity sev # map Options (unshifted sev ruleConfigs))"

definition addOption :: "optSchema \<Rightarrow> elem list list \<Rightarrow> jsError + elem list list" where
  "addOption opt ruleConfigs =
     (let rc1 = (case o_enum opt of Some enums \<Rightarrow> addEnums enums ruleConfigs | None \<Rightarrow> ruleConfigs)
      in if o_type opt = Some ''object'' then addObject opt rc1 else Inr rc1)"

fun addOptions :: "optSchema list \<Rightarrow> elem list list \<Rightarrow> jsError + elem list list" where
  "addOptions [] ruleConfigs = Inr ruleConfigs"
| "addOptions (opt # opts) ruleConfigs =
     (case addOption opt ruleConfigs of
        Inl err \<Rightarrow> Inl err
      | Inr rc \<Rightarrow> addOptions opts rc)"

definition generateConfigsFromSchema :: "schema \<Rightarrow> jsError + ruleConfig list" where
  "generateConfigsFromSchema sch =
     (case (case sch of None \<Rightarrow> Inr [] | Some opts \<Rightarrow> addOptions opts []) of
        Inl err \<Rightarrow> Inl err
      | Inr ruleConfigs \<Rightarrow> Inr (addErrorSeverity None ruleConfigs))"

text \<open>A schema on which the expander does not throw: every \<open>object\<close> descriptor has
  \<open>properties\<close>, and none of them is named like a member of \<open>Object.prototype\<close>.\<close>

definition expandable :: "schema \<Rightarrow> bool" where
  "expandable sch =
     (case sch of
        None \<Rightarrow> True
      | Some opts \<Rightarrow>
          list_all (\<lambda>opt. o_type opt = Some ''object'' \<longrightarrow>
             (case o_properties opt of
                None \<Rightarrow> False
              | Some props \<Rightarrow>
                  list_all (\<lambda>name. name \<notin> set Object_prototype_members) (map fst props)))
            opts)"

text \<open>A descriptor the expander acts on: it has an \<open>enum\<close>, or its type is \<open>object\<close>.\<close>

definition recognized :: "optSchema \<Rightarrow> bool" where
  "recognized opt = (o_enum opt \<noteq> None \<or> o_type opt = Some ''object'')"

section \<open>The Registry\<close>

text \<open>
  A registryItem is a mutable object: its \<open>errorCount\<close> is \<open>undefined\<close> until
  \<open>buildRuleSets\<close> sets it to 0, and the evaluation pass increments it
  (\<open>undefined + 1\<close> is \<open>NaN\<close>). A registry's \<open>rules\<close> object maps a rule id to an array
  of references to such items; the store maps a reference to the item's present state.
  The arrays and the \<open>rules\<close> objects themselves are never mutated after they are built:
  every method that changes one works on the copy \<open>assign({}, this.rules)\<close>.
\<close>

datatype counter = Undefined | Count nat | NaN

record registryItem =
  config :: ruleConfig
  specificity :: nat
  errorCount :: counter

type_synonym addr = nat

record store =
  cells :: "addr \<Rightarrow> registryItem"
  fresh :: addr

definition empty_store :: store where
  "empty_store =
     \<lparr>cells = (\<lambda>_. \<lparr>config = Severity 0, specificity = 0, errorCount = Undefined\<rparr>),
      fresh = 0\<rparr>"

type_synonym registryRules = "addr list obj"

text \<open>\<open>config.length || 1\<close>\<close>

definition config_specificity :: "ruleConfig \<Rightarrow> nat" where
  "config_specificity c =
     (case c of
        Severity n \<Rightarrow> 1
      | Options xs \<Rightarrow> if length xs = 0 then 1 else length xs)"

fun newItems :: "ruleConfig list \<Rightarrow> store \<Rightarrow> addr list \<times> store" where
  "newItems [] s = ([], s)"
| "newItems (c # cs) s =
     (let a = fresh s;
          s1 = s\<lparr>cells := (cells s)
                  (a := \<lparr>config = c, specificity = config_specificity c,
                         errorCount = Undefined\<rparr>),
                fresh := Suc a\<rparr>;
          (items, s2) = newItems cs s1
      in (a # items, s2))"

definition makeRegistryItems :: "ruleConfig list obj \<Rightarrow> store \<Rightarrow> registryRules \<times> store" where
  "makeRegistryItems rulesConfig s =
     fold (\<lambda>ruleId (accumulator, s1).
             case map_of rulesConfig ruleId of
               None \<Rightarrow> (accumulator, s1)
             | Some configs \<Rightarrow>
                 (let (items, s2) = newItems configs s1
                  in (AList.update ruleId items accumulator, s2)))
          (object_keys rulesConfig) ([], s)"

text \<open>
  The three transforms read the items through the store and build a new \<open>rules\<close>
  object from \<open>assign({}, this.rules)\<close>; the arrays they store are new (\<open>filter\<close>), the
  items in them are the same objects. A key taken from \<open>Object.keys(this.rules)\<close> is
  present in the copy when each key occurs once, so the \<open>None\<close> branches are not reached
  for an object.
\<close>

definition stripFailingConfigs :: "store \<Rightarrow> registryRules \<Rightarrow> registryRules" where
  "stripFailingConfigs s thisRules =
     fold (\<lambda>ruleId newRules.
             case map_of newRules ruleId of
               None \<Rightarrow> newRules
             | Some items \<Rightarrow>
                 (let errorFreeItems = filter (\<lambda>a. errorCount (cells s a) = Count 0) items
                  in if length errorFreeItems > 0
                     then AList.update ruleId errorFreeItems newRules
                     else AList.delete ruleId newRules))
          (object_keys thisRules) (assign [] thisRules)"

definition stripExtraConfigs :: "store \<Rightarrow> registryRules \<Rightarrow> registryRules" where
  "stripExtraConfigs s thisRules =
     fold (\<lambda>ruleId newRules.
             case map_of newRules ruleId of
               None \<Rightarrow> newRules
             | Some items \<Rightarrow>
                 AList.update ruleId
                   (filter (\<lambda>a. errorCount (cells s a) \<noteq> Undefined) items) newRules)
          (object_keys thisRules) (assign [] thisRules)"

definition filterBySpecificity :: "nat \<Rightarrow> store \<Rightarrow> registryRules \<Rightarrow> registryRules" where
  "filterBySpecificity n s thisRules =
     fold (\<lambda>ruleId newRules.
             case map_of thisRules ruleId of
               None \<Rightarrow> newRules
             | Some items \<Rightarrow>
                 AList.update ruleId
                   (filter (\<lambda>a. specificity (cells s a) = n) items) newRules)
          (object_keys thisRules) (assign [] thisRules)"

text \<open>\<open>createConfig\<close> returns the object \<open>{rules: {...}}\<close>: an ESLint configuration whose
  \<open>rules\<close> section holds the rules that have exactly one item.\<close>

definition createConfig :: "store \<Rightarrow> registryRules \<Rightarrow> eslintConfig" where
  "createConfig s thisRules =
     \<lparr>rules = fold (\<lambda>ruleId configRules.
                      case map_of thisRules ruleId of
                        Some [a] \<Rightarrow> AList.update ruleId (config (cells s a)) configRules
                      | _ \<Rightarrow> configRules)
                   (object_keys thisRules) [],
      extends = None\<rparr>"

subsection \<open>The transforms as methods, with every object on a heap\<close>

text \<open>
  The three transforms once more, as the methods they are, with every object they
  touch at an address of a heap: the registryItems (the store above), the arrays of
  item references, the \<open>rules\<close> objects (rule id to array reference) and the Registry
  objects (the reference in their \<open>rules\<close> property). The \<open>next\<close> counters are the
  addresses not yet in use. A method takes the reference \<open>this\<close> and the heap, and
  returns the reference of the Registry it returns and the heap after the call.
\<close>

record heap =
  heap_items :: store
  heap_arrays :: "nat \<Rightarrow> addr list"
  next_array :: nat
  heap_objects :: "nat \<Rightarrow> nat obj"
  next_object :: nat
  heap_registries :: "nat \<Rightarrow> nat"
  next_registry :: nat

text \<open>\<open>new Registry()\<close>: the constructor gives the new object the \<open>rules\<close> \<open>{}\<close>, a new
  object.\<close>

definition new_Registry :: "heap \<Rightarrow> nat \<times> heap" where
  "new_Registry h =
     (next_registry h,
      h\<lparr>heap_objects := (heap_objects h)(next_object h := []),
        next_object := Suc (next_object h),
        heap_registries := (heap_registries h)(next_registry h := next_object h),
        next_registry := Suc (next_registry h)\<rparr>)"

text \<open>\<open>assign({}, source)\<close>: a new object with the own properties of \<open>source\<close>, the values
  (array references) as they are.\<close>

definition assign_new :: "nat \<Rightarrow> heap \<Rightarrow> nat \<times> heap" where
  "assign_new source h =
     (next_object h,
      h\<lparr>heap_objects := (heap_objects h)(next_object h := assign [] (heap_objects h source)),
        next_object := Suc (next_object h)\<rparr>)"

text \<open>\<open>registry.rules = ob\<close>\<close>

definition set_rules :: "nat \<Rightarrow> nat \<Rightarrow> heap \<Rightarrow> heap" where
  "set_rules registry ob h = h\<lparr>heap_registries := (heap_registries h)(registry := ob)\<rparr>"

text \<open>\<open>arr.filter(callback)\<close>: a new array of the items of \<open>arr\<close> that pass, read as they
  are on the heap; the items themselves are not copied.\<close>

definition array_filter :: "(registryItem \<Rightarrow> bool) \<Rightarrow> nat \<Rightarrow> heap \<Rightarrow> nat \<times> heap" where
  "array_filter P arr h =
     (next_array h,
      h\<lparr>heap_arrays := (heap_arrays h)
            (next_array h := filter (\<lambda>a. P (cells (heap_items h) a)) (heap_arrays h arr)),
        next_array := Suc (next_array h)\<rparr>)"

text \<open>\<open>ob[key] = v\<close> and \<open>delete ob[key]\<close>\<close>

definition set_property :: "nat \<Rightarrow> string \<Rightarrow> nat \<Rightarrow> heap \<Rightarrow> heap" where
  "set_property ob key v h =
     h\<lparr>heap_objects := (heap_objects h)(ob := AList.update key v (heap_objects h ob))\<rparr>"

definition delete_property :: "nat \<Rightarrow> string \<Rightarrow> heap \<Rightarrow> heap" where
  "delete_property ob key h =
     h\<lparr>heap_objects := (heap_objects h)(ob := AList.delete key (heap_objects h ob))\<rparr>"

text \<open>The two statements \<open>newRegistry = new Registry(); newRegistry.rules =
  assign({}, this.rules);\<close> each of the three methods begins with.\<close>

definition Registry_copy :: "nat \<Rightarrow> heap \<Rightarrow> nat \<times> heap" where
  "Registry_copy this h =
     (let (newRegistry, h1) = new_Registry h;
          (copy, h2) = assign_new (heap_registries h1 this) h1
      in (newRegistry, set_rules newRegistry copy h2))"

text \<open>\<open>stripFailingConfigs\<close>: the callback of \<open>ruleIds.forEach\<close>, and the method.\<close>

definition stripFailingConfigs_each :: "nat \<Rightarrow> string \<Rightarrow> heap \<Rightarrow> heap" where
  "stripFailingConfigs_each newRegistry ruleId h =
     (case map_of (heap_objects h (heap_registries h newRegistry)) ruleId of
        None \<Rightarrow> h
      | Some arr \<Rightarrow>
          (let (errorFreeItems, h1) = array_filter (\<lambda>item. errorCount item = Count 0) arr h
           in if length (heap_arrays h1 errorFreeItems) > 0
              then set_property (heap_registries h1 newRegistry) ruleId errorFreeItems h1
              else delete_property (heap_registries h1 newRegistry) ruleId h1))"

definition Registry_stripFailingConfigs :: "nat \<Rightarrow> heap \<Rightarrow> nat \<times> heap" where
  "Registry_stripFailingConfigs this h =
     (let ruleIds = object_keys (heap_objects h (heap_registries h this));
          (newRegistry, h1) = Registry_copy this h
      in (newRegistry, fold (stripFailingConfigs_each newRegistry) ruleIds h1))"

text \<open>\<open>stripExtraConfigs\<close>\<close>

definition stripExtraConfigs_each :: "nat \<Rightarrow> string \<Rightarrow> heap \<Rightarrow> heap" where
  "stripExtraConfigs_each newRegistry ruleId h =
     (case map_of (heap_objects h (heap_registries h newRegistry)) ruleId of
        None \<Rightarrow> h
      | Some arr \<Rightarrow>
          (let (filtered, h1) = array_filter (\<lambda>item. errorCount item \<noteq> Undefined) arr h
           in set_property (heap_registries h1 newRegistry) ruleId filtered h1))"

definition Registry_stripExtraConfigs :: "nat \<Rightarrow> heap \<Rightarrow> nat \<times> heap" where
  "Registry_stripExtraConfigs this h =
     (let ruleIds = object_keys (heap_objects h (heap_registries h this));
          (newRegistry, h1) = Registry_copy this h
      in (newRegistry, fold (stripExtraConfigs_each newRegistry) ruleIds h1))"

text \<open>\<open>filterBySpecificity\<close>: the callback reads \<open>this.rules[ruleId]\<close>.\<close>

definition filterBySpecificity_each :: "nat \<Rightarrow> nat \<Rightarrow> nat \<Rightarrow> string \<Rightarrow> heap \<Rightarrow> heap" where
  "filterBySpecificity_each n this newRegistry ruleId h =
     (case map_of (heap_objects h (heap_registries h this)) ruleId of
        None \<Rightarrow> h
      | Some arr \<Rightarrow>
          (let (filtered, h1) = array_filter (\<lambda>item. specificity item = n) arr h
           in set_property (heap_registries h1 newRegistry) ruleId filtered h1))"

definition Registry_filterBySpecificity :: "nat \<Rightarrow> nat \<Rightarrow> heap \<Rightarrow> nat \<times> heap" where
  "Registry_filterBySpecificity n this h =
     (let ruleIds = object_keys (heap_objects h (heap_registries h this));
          (newRegistry, h1) = Registry_copy this h
      in (newRegistry, fold (filterBySpecificity_each n this newRegistry) ruleIds h1))"

text \<open>What a registry on the heap holds: for every rule id of its \<open>rules\<close> object, the
  item references in the array the property refers to.\<close>

definition registry_rules :: "heap \<Rightarrow> nat \<Rightarrow> registryRules" where
  "registry_rules h r =
     map (\<lambda>kv. (fst kv, heap_arrays h (snd kv))) (heap_objects h (heap_registries h r))"

text \<open>
  \<open>this\<close> is a Registry of the heap: the registry, its \<open>rules\<close> object (each rule id
  once) and the arrays in it are at addresses in use. \<open>preserved h h'\<close>: everything that
  is at an address in use in \<open>h\<close> is in \<open>h'\<close> as it is in \<open>h\<close>, every item with its
  configuration, specificity and counter. \<open>newly_allocated h h' r\<close>: the registry \<open>r\<close> of
  \<open>h'\<close>, its \<open>rules\<close> object and every array in it are at addresses not in use in \<open>h\<close>.
\<close>

definition allocated :: "heap \<Rightarrow> nat \<Rightarrow> bool" where
  "allocated h this =
     (this < next_registry h \<and> heap_registries h this < next_object h \<and>
      distinct (map fst (heap_objects h (heap_registries h this))) \<and>
      list_all (\<lambda>kv. snd kv < next_array h) (heap_objects h (heap_registries h this)))"

definition preserved :: "heap \<Rightarrow> heap \<Rightarrow> bool" where
  "preserved h h' =
     (heap_items h' = heap_items h \<and>
      next_array h \<le> next_array h' \<and> (\<forall>a < next_array h. heap_arrays h' a = heap_arrays h a) \<and>
      next_object h \<le> next_object h' \<and> (\<forall>ob < next_object h. heap_objects h' ob = heap_objects h ob) \<and>
      next_registry h \<le> next_registry h' \<and>
      (\<forall>r < next_registry h. heap_registries h' r = heap_registries h r))"

definition newly_allocated :: "heap \<Rightarrow> heap \<Rightarrow> nat \<Rightarrow> bool" where
  "newly_allocated h h' r =
     (next_registry h \<le> r \<and> r < next_registry h' \<and>
      next_object h \<le> heap_registries h' r \<and> heap_registries h' r < next_object h' \<and>
      list_all (\<lambda>kv. next_array h \<le> snd kv \<and> snd kv < next_array h')
        (heap_objects h' (heap_registries h' r)))"

text \<open>
  What holds of the heap \<open>hh\<close> throughout the loop of a method called on the heap \<open>h\<close>:
  the new registry is at \<open>next_registry h\<close> and its \<open>rules\<close> object at
  \<open>Suc (next_object h)\<close>; and \<open>renewed h hh S\<close>, the properties named in \<open>S\<close> refer to arrays
  made since the call.
\<close>

definition looping :: "heap \<Rightarrow> heap \<Rightarrow> bool" where
  "looping h hh =
     (preserved h hh \<and>
      heap_registries hh (next_registry h) = Suc (next_object h) \<and>
      next_registry h < next_registry hh \<and> Suc (next_object h) < next_object hh \<and>
      distinct (map fst (heap_objects hh (Suc (next_object h)))) \<and>
      list_all (\<lambda>kv. snd kv < next_array hh) (heap_objects hh (Suc (next_object h))))"

definition renewed :: "heap \<Rightarrow> heap \<Rightarrow> string set \<Rightarrow> bool" where
  "renewed h hh S =
     (\<forall>kv \<in> set (heap_objects hh (Suc (next_object h))). fst kv \<in> S \<longrightarrow> next_array h \<le> snd kv)"

subsection \<open>buildRuleSets\<close>

definition MAX_CONFIG_COMBINATIONS :: nat where
  "MAX_CONFIG_COMBINATIONS = 17"

type_synonym ruleSet = "ruleConfig obj"

text \<open>\<open>typeof config[1] === "object"\<close>: the second element is null, an array or an object.
  A bare severity has no second element.\<close>

definition second_is_object :: "ruleConfig \<Rightarrow> bool" where
  "second_is_object c =
     (case c of
        Severity n \<Rightarrow> False
      | Options xs \<Rightarrow>
          (case xs of
             x # y # _ \<Rightarrow> (case y of JNull \<Rightarrow> True | JArr _ \<Rightarrow> True | JObj _ \<Rightarrow> True | _ \<Rightarrow> False)
           | _ \<Rightarrow> False))"

text \<open>\<open>addRuleToRuleSet\<close> for the round \<open>idx\<close>: the second component is \<open>ruleSets[idx]\<close>,
  \<open>None\<close> while no rule has been put into it.\<close>

definition addRuleToRuleSet ::
  "registryRules \<Rightarrow> nat \<Rightarrow> string \<Rightarrow> store \<times> ruleSet option \<Rightarrow> store \<times> ruleSet option" where
  "addRuleToRuleSet thisRules idx rule = (\<lambda>(s, current).
     case map_of thisRules rule of
       None \<Rightarrow> (s, current)
     | Some items \<Rightarrow>
         (let hasFewCombos = (length items \<le> MAX_CONFIG_COMBINATIONS)
          in if idx < length items \<and>
                (hasFewCombos \<or> specificity (cells s (items ! idx)) \<le> 2)
             then
               if \<not> hasFewCombos \<and> second_is_object (config (cells s (items ! idx)))
               then (s, current)
               else
                 (s\<lparr>cells := (cells s)
                      (items ! idx := (cells s (items ! idx))\<lparr>errorCount := Count 0\<rparr>)\<rparr>,
                  Some (AList.update rule (config (cells s (items ! idx)))
                          (case current of None \<Rightarrow> [] | Some rs \<Rightarrow> rs)))
             else (s, current)))"

definition buildRound :: "registryRules \<Rightarrow> nat \<Rightarrow> store \<Rightarrow> store \<times> ruleSet option" where
  "buildRound thisRules idx s =
     fold (addRuleToRuleSet thisRules idx) (object_keys thisRules) (s, None)"

lemma addRuleToRuleSet_Some:
  assumes "snd (addRuleToRuleSet thisRules idx rule (s, current)) = Some rs"
  shows "current \<noteq> None \<or> (\<exists>items. map_of thisRules rule = Some items \<and> idx < length items)"
  using assms
  by (auto simp: addRuleToRuleSet_def Let_def split: option.splits if_splits)

lemma fold_addRuleToRuleSet_Some:
  assumes "snd (fold (addRuleToRuleSet thisRules idx) ids (s, current)) = Some rs"
  shows "current \<noteq> None \<or>
         (\<exists>rule items. map_of thisRules rule = Some items \<and> idx < length items)"
  using assms
proof (induction ids arbitrary: s current)
  case Nil
  then show ?case by simp
next
  case (Cons i ids)
  obtain s1 c1 where step: "addRuleToRuleSet thisRules idx i (s, current) = (s1, c1)"
    by (cases "addRuleToRuleSet thisRules idx i (s, current)")
  with Cons.prems have "snd (fold (addRuleToRuleSet thisRules idx) ids (s1, c1)) = Some rs"
    by simp
  from Cons.IH [OF this] show ?case
  proof
    assume "c1 \<noteq> None"
    then obtain r1 where "c1 = Some r1" by auto
    with step have "snd (addRuleToRuleSet thisRules idx i (s, current)) = Some r1" by simp
    from addRuleToRuleSet_Some [OF this] show ?thesis by blast
  next
    assume "\<exists>rule items. map_of thisRules rule = Some items \<and> idx < length items"
    then show ?thesis by blast
  qed
qed

lemma buildRound_Some_bound:
  assumes "buildRound thisRules idx s = (s1, Some rs)"
  shows "idx < sum_list (map (\<lambda>kv. length (snd kv)) thisRules)"
proof -
  from assms have "snd (fold (addRuleToRuleSet thisRules idx) (object_keys thisRules) (s, None)) = Some rs"
    by (simp add: buildRound_def)
  from fold_addRuleToRuleSet_Some [OF this]
  obtain rule items where "map_of thisRules rule = Some items" and lt: "idx < length items"
    by blast
  then have "(rule, items) \<in> set thisRules" by (auto dest: map_of_SomeD)
  then have "length items \<in> set (map (\<lambda>kv. length (snd kv)) thisRules)"
    by force
  then have "length items \<le> sum_list (map (\<lambda>kv. length (snd kv)) thisRules)"
    by (simp add: member_le_sum_list)
  with lt show ?thesis by simp
qed

text \<open>The loop \<open>while (ruleSets.length === idx) { ruleIds.forEach(addRuleToRuleSet); idx += 1; }\<close>\<close>

function buildRuleSets_loop ::
  "registryRules \<Rightarrow> nat \<Rightarrow> store \<Rightarrow> ruleSet list \<Rightarrow> store \<times> ruleSet list" where
  "buildRuleSets_loop thisRules idx s ruleSets =
     (if length ruleSets = idx
      then (case buildRound thisRules idx s of
              (s1, None) \<Rightarrow> buildRuleSets_loop thisRules (Suc idx) s1 ruleSets
            | (s1, Some rs) \<Rightarrow> buildRuleSets_loop thisRules (Suc idx) s1 (ruleSets @ [rs]))
      else (s, ruleSets))"
  by pat_completeness auto
termination
  apply (relation "measure (\<lambda>(thisRules, idx, s, ruleSets).
          if length ruleSets = idx
          then Suc (Suc (sum_list (map (\<lambda>kv. length (snd kv)) thisRules)) - idx)
          else 0)")
    apply simp
   apply simp
  apply (auto dest!: sym [of _ "buildRound _ _ _"] buildRound_Some_bound)
  done

definition buildRuleSets :: "registryRules \<Rightarrow> store \<Rightarrow> store \<times> ruleSet list" where
  "buildRuleSets thisRules s = buildRuleSets_loop thisRules 0 s []"

declare buildRuleSets_loop.simps [simp del]

subsection \<open>lintSourceCode\<close>

text \<open>
  \<open>eslint.verify\<close> is outside the repository's sources: a parameter that, for a source
  unit (\<open>None\<close> is \<open>null\<close>) and a configuration, either throws or returns the rule ids of
  its findings. The state of one evaluation pass: the store of items, the caller's
  \<open>sourceCodes\<close> object (mutated in place), what \<open>console.error\<close> was given, the
  (file, round) pairs \<open>verify\<close> was called with, and the arguments the progress
  callback received.
\<close>

datatype 'e caught = ByVerify 'e | ByEngine jsError

record ('s, 'e) pass =
  pass_store :: store
  pass_sourceCodes :: "'s option obj"
  pass_console :: "'e caught list"
  pass_calls :: "(string \<times> nat) list"
  pass_progress :: "nat list"

text \<open>\<open>errorCount += 1\<close>\<close>

definition increment :: "counter \<Rightarrow> counter" where
  "increment c = (case c of Undefined \<Rightarrow> NaN | Count n \<Rightarrow> Count (Suc n) | NaN \<Rightarrow> NaN)"

text \<open>
  \<open>lintResults.forEach(result => lintedRegistry.rules[result.ruleId][ruleSetIdx].errorCount += 1)\<close>;
  a rule id the registry does not have, or an index past the rule's items, is a
  TypeError that ends the loop (the increments made before it stay).
\<close>

fun countResults :: "registryRules \<Rightarrow> nat \<Rightarrow> string list \<Rightarrow> store \<Rightarrow> store \<times> jsError option" where
  "countResults lintedRules ruleSetIdx [] s = (s, None)"
| "countResults lintedRules ruleSetIdx (ruleId # results) s =
     (case map_of lintedRules ruleId of
        None \<Rightarrow> (s, Some TypeError)
      | Some items \<Rightarrow>
          if ruleSetIdx < length items
          then countResults lintedRules ruleSetIdx results
                 (s\<lparr>cells := (cells s)
                      (items ! ruleSetIdx := (cells s (items ! ruleSetIdx))
                         \<lparr>errorCount := increment (errorCount (cells s (items ! ruleSetIdx)))\<rparr>)\<rparr>)
          else (s, Some TypeError))"

text \<open>The body of \<open>ruleSets.forEach\<close>, with its \<open>try\<close> and \<open>catch\<close>.\<close>

definition lintRuleSet ::
  "('s option \<Rightarrow> 'a eslintConfig_scheme \<Rightarrow> 'e + string list) \<Rightarrow> bool \<Rightarrow> nat \<Rightarrow>
     'a eslintConfig_scheme \<Rightarrow> registryRules \<Rightarrow> string \<Rightarrow> ruleSet \<Rightarrow>
     ('s, 'e) pass \<times> nat \<Rightarrow> ('s, 'e) pass \<times> nat" where
  "lintRuleSet verify cb totalFilesLinting config0 lintedRules filename ruleSet = (\<lambda>(p, ruleSetIdx).
     let lintConfig = config0\<lparr>rules := ruleSet\<rparr>;
         sourceCode = (case map_of (pass_sourceCodes p) filename of Some v \<Rightarrow> v | None \<Rightarrow> None);
         p1 = p\<lparr>pass_calls := pass_calls p @ [(filename, ruleSetIdx)]\<rparr>;
         p2 = (case verify sourceCode lintConfig of
                 Inl err \<Rightarrow> p1\<lparr>pass_console := pass_console p1 @ [ByVerify err]\<rparr>
               | Inr lintResults \<Rightarrow>
                   (case countResults lintedRules ruleSetIdx lintResults (pass_store p1) of
                      (s1, None) \<Rightarrow> p1\<lparr>pass_store := s1\<rparr>
                    | (s1, Some err) \<Rightarrow>
                        p1\<lparr>pass_store := s1, pass_console := pass_console p1 @ [ByEngine err]\<rparr>));
         p3 = (if cb then p2\<lparr>pass_progress := pass_progress p2 @ [totalFilesLinting]\<rparr> else p2)
     in (p3, Suc ruleSetIdx))"

text \<open>The body of \<open>filenames.forEach\<close>: every round for the file, then
  \<open>sourceCodes[filename] = null\<close>.\<close>

definition lintFile ::
  "('s option \<Rightarrow> 'a eslintConfig_scheme \<Rightarrow> 'e + string list) \<Rightarrow> bool \<Rightarrow> nat \<Rightarrow>
     'a eslintConfig_scheme \<Rightarrow> registryRules \<Rightarrow> ruleSet list \<Rightarrow> string \<Rightarrow>
     ('s, 'e) pass \<Rightarrow> ('s, 'e) pass" where
  "lintFile verify cb totalFilesLinting config0 lintedRules ruleSets filename p =
     (let p1 = fst (fold (lintRuleSet verify cb totalFilesLinting config0 lintedRules filename)
                      ruleSets (p, 0))
      in p1\<lparr>pass_sourceCodes := AList.update filename None (pass_sourceCodes p1)\<rparr>)"

definition lintSourceCode ::
  "('s option \<Rightarrow> 'a eslintConfig_scheme \<Rightarrow> 'e + string list) \<Rightarrow> bool \<Rightarrow>
     'a eslintConfig_scheme \<Rightarrow> registryRules \<Rightarrow> 's option obj \<Rightarrow> store \<Rightarrow>
     registryRules \<times> ('s, 'e) pass" where
  "lintSourceCode verify cb config0 thisRules sourceCodes s =
     (let lintedRules0 = assign [] thisRules;
          (s1, ruleSets) = buildRuleSets lintedRules0 s;
          lintedRules = stripExtraConfigs s1 lintedRules0;
          filenames = object_keys sourceCodes;
          totalFilesLinting = length filenames * length ruleSets;
          p = fold (lintFile verify cb totalFilesLinting config0 lintedRules ruleSets) filenames
                \<lparr>pass_store = s1, pass_sourceCodes = sourceCodes, pass_console = [],
                 pass_calls = [], pass_progress = []\<rparr>
      in (lintedRules, p))"

section \<open>The config initializer: getSourceCodeOfFiles and configureRules\<close>

text \<open>
  \<open>getSourceCodeOfFiles\<close>: \<open>filenames\<close> is what \<open>globUtil.listFilesToProcess\<close> resolved
  from the patterns, and \<open>getSourceCodeOfFile\<close> gives a file's SourceCode, \<open>None\<close> when
  it is falsy; both come from outside the repository's sources.
\<close>

definition getSourceCodeOfFiles :: "(string \<Rightarrow> 's option) \<Rightarrow> string list \<Rightarrow> 's option obj" where
  "getSourceCodeOfFiles getSourceCodeOfFile filenames =
     fold (\<lambda>filename sourceCodes.
             case getSourceCodeOfFile filename of
               Some sourceCode \<Rightarrow> AList.update filename (Some sourceCode) sourceCodes
             | None \<Rightarrow> sourceCodes)
          filenames []"

text \<open>\<open>createConfigsForCoreRules\<close>, over the catalogue of rule ids and schemas that
  \<open>loadRules\<close> and \<open>rules.get\<close> provide.\<close>

definition createConfigsForCoreRules :: "schema obj \<Rightarrow> jsError + ruleConfig list obj" where
  "createConfigsForCoreRules ruleList =
     fold (\<lambda>ruleId accumulator.
             case accumulator of
               Inl err \<Rightarrow> Inl err
             | Inr acc \<Rightarrow>
                 (case map_of ruleList ruleId of
                    None \<Rightarrow> Inr acc
                  | Some sch \<Rightarrow>
                      (case generateConfigsFromSchema sch of
                         Inl err \<Rightarrow> Inl err
                       | Inr configs \<Rightarrow> Inr (AList.update ruleId configs acc))))
          (object_keys ruleList) (Inr [])"

text \<open>
  Modelled from the spec: \<open>configureRules\<close> calls \<open>registry.getRulesWithOneConfig()\<close> and
  \<open>registry.getRulesWithSpecificity(n)\<close>, which the Registry of the sources does not
  define. Section 4.2 of the specification names the first together with
  \<open>createConfig\<close> as the mapping of the rules with exactly one candidate, and section
  4.4 obtains the buckets for specificity 2, 3 and 1 with \<open>filterBySpecificity\<close>; the
  mapping of a bucket is taken the same way.
\<close>

definition getRulesWithOneConfig :: "store \<Rightarrow> registryRules \<Rightarrow> ruleConfig obj" where
  "getRulesWithOneConfig s thisRules = rules (createConfig s thisRules)"

definition getRulesWithSpecificity :: "nat \<Rightarrow> store \<Rightarrow> registryRules \<Rightarrow> ruleConfig obj" where
  "getRulesWithSpecificity n s thisRules = rules (createConfig s (filterBySpecificity n s thisRules))"

text \<open>
  What \<open>configureRules\<close> does besides computing: the message it prints and the call
  \<open>inquirerUi.complete()\<close> when no file was resolved (the progress bar is left out).
  \<open>inquirerUi\<close> is a variable of the module, undefined until \<open>promptUser\<close> assigns it
  what \<open>inquirer.prompt\<close> returns, so it is undefined (\<open>None\<close>) when the exported
  \<open>processAnswers\<close> is called directly. inquirer is outside the repository's sources:
  \<open>has_complete\<close> tells whether the object it returned has a method \<open>complete\<close>. The
  call \<open>inquirerUi.complete()\<close> is a TypeError when \<open>inquirerUi\<close> is undefined or has no
  such method; otherwise it returns, and \<open>configureRules\<close> goes on: there is no
  \<open>return\<close> in the branch.
\<close>

datatype event = ConsoleError string | InquirerUiComplete

datatype promptUi = PromptUi (has_complete: bool)

definition inquirerUi_complete :: "promptUi option \<Rightarrow> jsError + event" where
  "inquirerUi_complete inquirerUi =
     (case inquirerUi of
        None \<Rightarrow> Inl TypeError
      | Some ui \<Rightarrow> if has_complete ui then Inr InquirerUiComplete else Inl TypeError)"

text \<open>
  The selection of \<open>configureRules\<close>, from "Create a base config with all rules turned
  off" to the merge, over the registry the evaluation pass returned. The two Registry
  methods it calls are parameters. \<open>registry.stripFailingConfigs()\<close> is a statement of
  its own: the registry it returns is not kept, and the later calls are made on
  \<open>registry\<close>.
\<close>

definition selectRules ::
  "(store \<Rightarrow> registryRules \<Rightarrow> ruleConfig obj) \<Rightarrow>
   (nat \<Rightarrow> store \<Rightarrow> registryRules \<Rightarrow> ruleConfig obj) \<Rightarrow>
   store \<Rightarrow> registryRules \<Rightarrow> ruleConfig obj" where
  "selectRules rulesWithOneConfig rulesWithSpecificity s registry =
     (let disabledConfigs = fold (\<lambda>ruleId d. AList.update ruleId (Severity 0) d)
                              (object_keys registry) [];
          discarded = stripFailingConfigs s registry;
          singleConfigs = rulesWithOneConfig s registry;
          specTwoConfigs = rulesWithSpecificity 2 s registry;
          specThreeConfigs = rulesWithSpecificity 3 s registry;
          defaultConfigs = rulesWithSpecificity 1 s registry
      in assign (assign (assign (assign (assign [] disabledConfigs)
           defaultConfigs) specThreeConfigs) specTwoConfigs) singleConfigs)"

text \<open>
  \<open>configureRules\<close>. \<open>registryMethods\<close> is \<open>None\<close> for the Registry of the sources, which
  defines neither \<open>getRulesWithOneConfig\<close> nor \<open>getRulesWithSpecificity\<close>: the call
  \<open>registry.getRulesWithOneConfig()\<close> is then a TypeError, thrown after the evaluation
  pass. With a Registry that has the two methods, \<open>registryMethods\<close> gives them. A
  thrown error comes with what was printed and with the (file, round) pairs \<open>verify\<close>
  had been called with before it.
\<close>

definition configureRules ::
  "promptUi option \<Rightarrow>
   ((store \<Rightarrow> registryRules \<Rightarrow> ruleConfig obj) \<times>
    (nat \<Rightarrow> store \<Rightarrow> registryRules \<Rightarrow> ruleConfig obj)) option \<Rightarrow>
   ('s option \<Rightarrow> 'a eslintConfig_scheme \<Rightarrow> 'e + string list) \<Rightarrow>
   (string \<Rightarrow> 's option) \<Rightarrow> string list \<Rightarrow> schema obj \<Rightarrow> 'a eslintConfig_scheme \<Rightarrow>
   (jsError \<times> event list \<times> (string \<times> nat) list) +
   ('a eslintConfig_scheme \<times> event list \<times> ('s, 'e) pass)" where
  "configureRules inquirerUi registryMethods verify getSourceCodeOfFile filenames
       ruleList config0 =
     (let newConfig = config0;
          sourceCodes = getSourceCodeOfFiles getSourceCodeOfFile filenames;
          fileQty = length (object_keys sourceCodes);
          bailed = (if fileQty = 0
                    then (case inquirerUi_complete inquirerUi of
                            Inl err \<Rightarrow> Inl (err, [ConsoleError ''Failed. No files resolved''])
                          | Inr ev \<Rightarrow> Inr [ConsoleError ''Failed. No files resolved'', ev])
                    else Inr [])
      in case bailed of
           Inl (err, events) \<Rightarrow> Inl (err, events, [])
         | Inr events \<Rightarrow>
             (case createConfigsForCoreRules ruleList of
                Inl err \<Rightarrow> Inl (err, events, [])
              | Inr rulesConfig \<Rightarrow>
                  (let (registry0, s0) = makeRegistryItems rulesConfig empty_store;
                       (registry, p) = lintSourceCode verify True newConfig registry0 sourceCodes s0
                   in case registryMethods of
                        None \<Rightarrow> Inl (TypeError, events, pass_calls p)
                      | Some (rulesWithOneConfig, rulesWithSpecificity) \<Rightarrow>
                          Inr (newConfig\<lparr>rules :=
                                 selectRules rulesWithOneConfig rulesWithSpecificity
                                   (pass_store p) registry\<rparr>,
                               events, p))))"

text \<open>What a caller of \<open>configureRules\<close> can see: the error thrown or the \<open>rules\<close> of the
  configuration returned, what was printed, and the (file, round) pairs \<open>verify\<close> was
  called with.\<close>

definition configured ::
  "(jsError \<times> event list \<times> (string \<times> nat) list) +
   ('a eslintConfig_scheme \<times> event list \<times> ('s, 'e) pass) \<Rightarrow>
     (jsError \<times> event list \<times> (string \<times> nat) list) +
     (ruleConfig obj \<times> event list \<times> (string \<times> nat) list)" where
  "configured outcome =
     (case outcome of
        Inl err \<Rightarrow> Inl err
      | Inr (newConfig, events, p) \<Rightarrow> Inr (rules newConfig, events, pass_calls p))"

section \<open>Reading a registry, and stores written out\<close>

text \<open>The zero-count items of an array: \<open>filter(registryItem => registryItem.errorCount === 0)\<close>.\<close>

definition errorFree :: "store \<Rightarrow> addr list \<Rightarrow> addr list" where
  "errorFree s items = filter (\<lambda>a. errorCount (cells s a) = Count 0) items"

text \<open>What a caller reads through a registry: for every rule, the present state of the
  items its array refers to.\<close>

definition registry_view :: "store \<Rightarrow> registryRules \<Rightarrow> (string \<times> registryItem list) list" where
  "registry_view s thisRules = map (\<lambda>kv. (fst kv, map (cells s) (snd kv))) thisRules"

text \<open>A store whose items, at the references 0, 1, ..., are the given ones.\<close>

definition item_store :: "registryItem list \<Rightarrow> store" where
  "item_store xs =
     \<lparr>cells = (\<lambda>a. if a < length xs then xs ! a
                    else \<lparr>config = Severity 0, specificity = 0, errorCount = Undefined\<rparr>),
      fresh = length xs\<rparr>"

text \<open>A heap with one registry, \<open>{quotes: [item 0, item 1]}\<close>: item 0 is the bare severity
  with no finding, item 1 is \<open>[2, "always"]\<close>, not evaluated.\<close>

definition quotes_heap :: heap where
  "quotes_heap =
     \<lparr>heap_items =
        item_store [\<lparr>config = Severity 2, specificity = 1, errorCount = Count 0\<rparr>,
                    \<lparr>config = Options [JNum 2, JStr ''always''], specificity = 2,
                       errorCount = Undefined\<rparr>],
      heap_arrays = (\<lambda>a. if a = 0 then [0, 1] else []),
      next_array = 1,
      heap_objects = (\<lambda>ob. if ob = 0 then [(''quotes'', 0)] else []),
      next_object = 1,
      heap_registries = (\<lambda>r. 0),
      next_registry = 1\<rparr>"

text \<open>\<open>Object.keys\<close> of a configuration object that has no property besides \<open>rules\<close> and
  \<open>extends\<close>.\<close>

definition config_keys :: "eslintConfig \<Rightarrow> string list" where
  "config_keys c = ''rules'' # (case extends c of None \<Rightarrow> [] | Some _ \<Rightarrow> [''extends''])"

text \<open>The evaluator that returns no finding wherever \<open>verify\<close> throws.\<close>

definition absorbFailures ::
  "('s option \<Rightarrow> 'c \<Rightarrow> 'e + string list) \<Rightarrow> 's option \<Rightarrow> 'c \<Rightarrow> 'e + string list" where
  "absorbFailures verify src cfg =
     (case verify src cfg of Inl err \<Rightarrow> Inr [] | Inr findings \<Rightarrow> Inr findings)"

text \<open>Two pass states that differ at most in what \<open>console.error\<close> was given.\<close>

definition same_outcome :: "('s, 'e) pass \<Rightarrow> ('s, 'e) pass \<Rightarrow> bool" where
  "same_outcome p q =
     (pass_store p = pass_store q \<and> pass_sourceCodes p = pass_sourceCodes q \<and>
      pass_calls p = pass_calls q \<and> pass_progress p = pass_progress q)"

text \<open>The schema \<open>[{enum: [0, 1, ..., n - 1]}]\<close>, and the registry \<open>new Registry(rulesConfig)\<close>
  builds for one rule \<open>r\<close> with that schema.\<close>

definition enum_schema :: "nat \<Rightarrow> schema" where
  "enum_schema n = Some [OptSchema (Some (map (\<lambda>i. JNum (int i)) [0..<n])) None None]"

definition enum_registry :: "nat \<Rightarrow> registryRules \<times> store" where
  "enum_registry n =
     (case generateConfigsFromSchema (enum_schema n) of
        Inr configs \<Rightarrow> makeRegistryItems [(''r'', configs)] empty_store
      | Inl err \<Rightarrow> ([], empty_store))"

text \<open>Two stores whose items have the same configurations and specificities; and the
  test of \<open>addRuleToRuleSet\<close> on the item at an index, for a rule alone in its registry.\<close>

definition same_configs :: "store \<Rightarrow> store \<Rightarrow> bool" where
  "same_configs s s' =
     (\<forall>a. config (cells s a) = config (cells s' a) \<and>
          specificity (cells s a) = specificity (cells s' a))"

definition eligible :: "store \<Rightarrow> addr list \<Rightarrow> nat \<Rightarrow> bool" where
  "eligible s items idx =
     (length items \<le> MAX_CONFIG_COMBINATIONS \<or>
      (specificity (cells s (items ! idx)) \<le> 2 \<and>
       \<not> second_is_object (config (cells s (items ! idx)))))"

section \<open>Facts about objects\<close>

lemma update_fresh_key: "k \<notin> fst ` set al \<Longrightarrow> AList.update k v al = al @ [(k, v)]"
  by (induction al) auto

lemma update_mid:
  "k \<notin> fst ` set pre \<Longrightarrow> AList.update k v' (pre @ (k, v) # xs) = pre @ (k, v') # xs"
  by (induction pre) auto

lemma delete_mid:
  "k \<notin> fst ` set pre \<Longrightarrow> k \<notin> fst ` set xs \<Longrightarrow> AList.delete k (pre @ (k, v) # xs) = pre @ xs"
  by (induction pre) (auto simp: AList.delete_id)

lemma map_of_mid:
  "k \<notin> fst ` set pre \<Longrightarrow> map_of (pre @ (k, v) # xs) k = Some v"
  by (induction pre) auto

lemma assign_fresh:
  "distinct (map fst xs) \<Longrightarrow> fst ` set acc \<inter> fst ` set xs = {} \<Longrightarrow>
     fold (\<lambda>(k, v) acc. AList.update k v acc) xs acc = acc @ xs"
proof (induction xs arbitrary: acc)
  case Nil
  show ?case by simp
next
  case (Cons kv xs)
  obtain k v where kv: "kv = (k, v)" by (cases kv)
  have "AList.update k v acc = acc @ [(k, v)]"
    using Cons.prems kv by (intro update_fresh_key) auto
  moreover have "fold (\<lambda>(k, v) acc. AList.update k v acc) xs (acc @ [(k, v)]) = (acc @ [(k, v)]) @ xs"
    using Cons.prems kv by (intro Cons.IH) auto
  ultimately show ?case using kv by simp
qed

lemma assign_empty: "distinct (map fst xs) \<Longrightarrow> assign [] xs = xs"
  unfolding assign_def using assign_fresh [of xs "[]"] by simp

lemma fold_update_or_delete:
  assumes "distinct (map fst (pre @ xs))"
  shows "fold (\<lambda>k m. case map_of m k of
                 None \<Rightarrow> m
               | Some v \<Rightarrow> (case g v of Some v' \<Rightarrow> AList.update k v' m | None \<Rightarrow> AList.delete k m))
           (map fst xs) (pre @ xs) =
         pre @ List.map_filter (\<lambda>kv. map_option (Pair (fst kv)) (g (snd kv))) xs"
  using assms
proof (induction xs arbitrary: pre)
  case Nil
  show ?case by (simp add: List.map_filter_simps)
next
  case (Cons kv xs)
  obtain k v where kv: "kv = (k, v)" by (cases kv)
  from Cons.prems kv have notin: "k \<notin> fst ` set pre" "k \<notin> fst ` set xs" by auto
  have look: "map_of (pre @ (k, v) # xs) k = Some v"
    by (rule map_of_mid [OF notin(1)])
  show ?case
  proof (cases "g v")
    case None
    have "distinct (map fst (pre @ xs))" using Cons.prems by auto
    from Cons.IH [OF this] show ?thesis
      unfolding kv using None
      by (simp add: look delete_mid [OF notin] List.map_filter_simps del: map_of_append)
  next
    case (Some v')
    have "distinct (map fst ((pre @ [(k, v')]) @ xs))" using Cons.prems kv by auto
    from Cons.IH [OF this] show ?thesis
      unfolding kv using Some
      by (simp add: look update_mid [OF notin(1)] List.map_filter_simps del: map_of_append)
  qed
qed

lemma fold_update_from:
  assumes "distinct (map fst (pre @ xs))" and "\<And>k v. (k, v) \<in> set xs \<Longrightarrow> map_of orig k = Some v"
  shows "fold (\<lambda>k m. case map_of orig k of None \<Rightarrow> m | Some v \<Rightarrow> AList.update k (f v) m)
           (map fst xs) (pre @ xs) =
         pre @ map (\<lambda>kv. (fst kv, f (snd kv))) xs"
  using assms
proof (induction xs arbitrary: pre)
  case Nil
  show ?case by simp
next
  case (Cons kv xs)
  obtain k v where kv: "kv = (k, v)" by (cases kv)
  from Cons.prems kv have notin: "k \<notin> fst ` set pre" by auto
  have look: "map_of orig k = Some v" using Cons.prems(2) kv by simp
  have d: "distinct (map fst ((pre @ [(k, f v)]) @ xs))" using Cons.prems kv by auto
  have p2: "\<And>k v. (k, v) \<in> set xs \<Longrightarrow> map_of orig k = Some v"
    using Cons.prems(2) by simp
  from Cons.IH [OF d p2] show ?case
    unfolding kv by (simp add: look update_mid [OF notin])
qed

lemma buildRuleSets_loop_unfold:
  "buildRuleSets_loop thisRules idx s ruleSets =
     (if length ruleSets = idx
      then (case snd (buildRound thisRules idx s) of
              None \<Rightarrow> (fst (buildRound thisRules idx s), ruleSets)
            | Some rs \<Rightarrow> buildRuleSets_loop thisRules (Suc idx) (fst (buildRound thisRules idx s))
                          (ruleSets @ [rs]))
      else (s, ruleSets))"
proof -
  have stop: "buildRuleSets_loop thisRules i s' ruleSets = (s', ruleSets)"
    if "length ruleSets \<noteq> i" for i s'
    using that by (subst buildRuleSets_loop.simps) simp
  obtain s1 c where r: "buildRound thisRules idx s = (s1, c)"
    by (cases "buildRound thisRules idx s")
  show ?thesis
  proof (cases "length ruleSets = idx")
    case False
    then show ?thesis by (simp add: stop)
  next
    case True
    show ?thesis
    proof (cases c)
      case None
      have "buildRuleSets_loop thisRules idx s ruleSets =
            buildRuleSets_loop thisRules (Suc idx) s1 ruleSets"
        by (subst buildRuleSets_loop.simps) (simp add: r None True)
      also have "\<dots> = (s1, ruleSets)"
        using True by (intro stop) simp
      finally show ?thesis using r None True by simp
    next
      case (Some rs)
      have "buildRuleSets_loop thisRules idx s ruleSets =
            buildRuleSets_loop thisRules (Suc idx) s1 (ruleSets @ [rs])"
        by (subst buildRuleSets_loop.simps) (simp add: r Some True)
      then show ?thesis using r Some True by simp
    qed
  qed
qed

section \<open>Properties of generateConfigsFromSchema\<close>

lemma unshifted_fold_heads:
  assumes "x \<in> set (fold (\<lambda>cfg done.
             done @ [JNum severity #
               map (\<lambda>e. case e of
                          Val v \<Rightarrow> v
                        | Ref i \<Rightarrow> if i < length done then JArr (done ! i) else JUndefined)
                   cfg]) ruleConfigs acc)"
  shows "x \<in> set acc \<or> (\<exists>opts. x = JNum severity # opts)"
  using assms
proof (induction ruleConfigs arbitrary: acc)
  case Nil
  then show ?case by simp
next
  case (Cons cfg ruleConfigs)
  from Cons.IH [OF Cons.prems [simplified]] show ?case by auto
qed

lemma unshifted_heads:
  "x \<in> set (unshifted severity ruleConfigs) \<Longrightarrow> \<exists>opts. x = JNum severity # opts"
  unfolding unshifted_def by (drule unshifted_fold_heads) simp

lemma own_keys_set: "set (own_keys ob) = fst ` set ob"
  by (auto simp: own_keys_def)

lemma own_keys_single: "own_keys [(k, v)] = [k]"
  by (simp add: own_keys_def)

lemma groupByProperty_fold_total:
  assumes "\<forall>ob \<in> set objects. group_name ob \<notin> set Object_prototype_members"
  shows "\<exists>groupedObj. fold
        (\<lambda>ob acc.
           case acc of
             Inl err \<Rightarrow> Inl err
           | Inr accumulator \<Rightarrow>
               (case map_of accumulator (group_name ob) of
                  Some grp \<Rightarrow> Inr (AList.update (group_name ob) (grp @ [ob]) accumulator)
                | None \<Rightarrow>
                    if group_name ob \<in> set Object_prototype_members then Inl TypeError
                    else Inr (AList.update (group_name ob) [ob] accumulator)))
        objects (Inr acc0) = Inr groupedObj"
  using assms
proof (induction objects arbitrary: acc0)
  case Nil
  show ?case by simp
next
  case (Cons ob objects)
  then have "group_name ob \<notin> set Object_prototype_members" by simp
  then show ?case
    using Cons.IH Cons.prems
    by (cases "map_of acc0 (group_name ob)") simp_all
qed

lemma groupByProperty_total:
  assumes "\<forall>ob \<in> set objects. group_name ob \<notin> set Object_prototype_members"
  shows "\<exists>groups. groupByProperty objects = Inr groups"
  using groupByProperty_fold_total [OF assms, of "[]"]
  by (auto simp: groupByProperty_def)

lemma objectConfigSet_add_names:
  assumes "property \<notin> set Object_prototype_members"
    and "\<forall>ob \<in> set objectConfigs. group_name ob \<notin> set Object_prototype_members"
  shows "\<forall>ob \<in> set (objectConfigSet_add property vals objectConfigs).
           group_name ob \<notin> set Object_prototype_members"
proof -
  have np: "property \<noteq> ''__proto__''"
    using assms(1) by (auto simp: Object_prototype_members_def)
  have "\<forall>ob \<in> set (fold (\<lambda>v acc. acc @ [[(property, v)]]) vals acc).
          group_name ob \<notin> set Object_prototype_members"
    if "\<forall>ob \<in> set acc. group_name ob \<notin> set Object_prototype_members" for acc
    using that
  proof (induction vals arbitrary: acc)
    case Nil
    then show ?case by simp
  next
    case (Cons v vals)
    have "\<forall>ob \<in> set (acc @ [[(property, v)]]). group_name ob \<notin> set Object_prototype_members"
      using Cons.prems assms(1) by (simp add: group_name_def own_keys_single)
    from Cons.IH [OF this] show ?case by simp
  qed
  then show ?thesis using assms(2) np by (simp add: objectConfigSet_add_def)
qed

lemma addObject_total:
  assumes "o_properties ob = Some props"
    and "list_all (\<lambda>name. name \<notin> set Object_prototype_members) (map fst props)"
  shows "\<exists>rc. addObject ob ruleConfigs = Inr rc"
proof -
  let ?step = "\<lambda>prop oc.
                   case map_of props prop of
                     None \<Rightarrow> oc
                   | Some p \<Rightarrow>
                       let oc1 = (case p_enum p of
                                    Some vs \<Rightarrow> objectConfigSet_add prop vs oc
                                  | None \<Rightarrow> oc)
                       in if p_type p = Some ''boolean''
                          then objectConfigSet_add prop [JBool True, JBool False] oc1
                          else oc1"
  have names: "\<forall>prop \<in> set (own_keys props). prop \<notin> set Object_prototype_members"
    using assms(2) by (auto simp: own_keys_set list_all_iff)
  have "\<forall>ob \<in> set (fold ?step ks oc). group_name ob \<notin> set Object_prototype_members"
    if "\<forall>ob \<in> set oc. group_name ob \<notin> set Object_prototype_members"
      and "\<forall>prop \<in> set ks. prop \<notin> set Object_prototype_members" for ks oc
    using that
  proof (induction ks arbitrary: oc)
    case Nil
    then show ?case by simp
  next
    case (Cons k ks)
    have "\<forall>ob \<in> set (?step k oc). group_name ob \<notin> set Object_prototype_members"
      using Cons.prems
      by (auto simp: Let_def split: option.splits
            dest!: bspec [OF objectConfigSet_add_names, rotated 2])
    then show ?case using Cons.IH Cons.prems(2) by simp
  qed
  from this [of "[]" "own_keys props"] names
  have "\<forall>ob \<in> set (fold ?step (own_keys props) []). group_name ob \<notin> set Object_prototype_members"
    by simp
  from groupByProperty_total [OF this]
  show ?thesis
    using assms(1) by (auto simp: addObject_def objectConfigSet_combine_def Let_def)
qed

lemma addOptions_total:
  "list_all (\<lambda>opt. o_type opt = Some ''object'' \<longrightarrow>
             (case o_properties opt of
                None \<Rightarrow> False
              | Some props \<Rightarrow>
                  list_all (\<lambda>name. name \<notin> set Object_prototype_members) (map fst props)))
     opts
     \<Longrightarrow> \<exists>rc. addOptions opts ruleConfigs = Inr rc"
proof (induction opts arbitrary: ruleConfigs)
  case Nil
  show ?case by simp
next
  case (Cons opt opts)
  have "\<exists>rc. addOption opt ruleConfigs = Inr rc"
  proof (cases "o_type opt = Some ''object''")
    case True
    with Cons.prems obtain props where "o_properties opt = Some props"
      and "list_all (\<lambda>name. name \<notin> set Object_prototype_members) (map fst props)"
      by (auto split: option.splits)
    from addObject_total [OF this] True show ?thesis
      by (simp add: addOption_def Let_def)
  next
    case False
    then show ?thesis by (simp add: addOption_def Let_def)
  qed
  then obtain rc where "addOption opt ruleConfigs = Inr rc" ..
  moreover have "\<exists>rc'. addOptions opts rc = Inr rc'"
    using Cons.IH Cons.prems by simp
  ultimately show ?case by simp
qed

lemma addOptions_unrecognized:
  "\<not> list_ex recognized opts \<Longrightarrow> addOptions opts ruleConfigs = Inr ruleConfigs"
  by (induction opts arbitrary: ruleConfigs)
     (auto simp: recognized_def addOption_def Let_def split: option.splits)

text \<open>
  The expander throws on a property named like a member of \<open>Object.prototype\<close>: for
  the schema \<open>[{type: "object", properties: {constructor: {type: "boolean"}}}]\<close>,
  \<open>groupByProperty\<close> reads \<open>accumulator["constructor"]\<close> of \<open>{}\<close>, the function \<open>Object\<close>,
  and calls its missing \<open>concat\<close>. No list is returned for such a schema.
\<close>

lemma generateConfigsFromSchema_prototype_member:
  "generateConfigsFromSchema
     (Some [OptSchema None (Some ''object'')
              (Some [(''constructor'', PropSchema None (Some ''boolean''))])]) = Inl TypeError"
  by (simp add: generateConfigsFromSchema_def addOption_def addObject_def Let_def
      objectConfigSet_add_def objectConfigSet_combine_def groupByProperty_def group_name_def
      own_keys_def array_index_def Object_prototype_members_def)

text \<open>
  Claim C6. For every schema: on an \<open>expandable\<close> schema (every object descriptor has
  its \<open>properties\<close>, none of them named like a member of \<open>Object.prototype\<close>)
  \<open>generateConfigsFromSchema\<close> returns a candidate list; whenever it returns a list,
  the list is the bare severity 2 followed only by arrays whose first element is 2
  (so the bare severity occurs exactly once, in front); and a schema that is not an
  array, or that has no recognized descriptor, gives exactly the single bare severity.
\<close>

theorem generateConfigsFromSchema_bare_then_error_tuples:
  "(expandable sch \<longrightarrow> (\<exists>cs. generateConfigsFromSchema sch = Inr cs)) \<and>
   (\<forall>cs. generateConfigsFromSchema sch = Inr cs \<longrightarrow>
      (\<exists>rest. cs = Severity 2 # rest \<and> (\<forall>c \<in> set rest. \<exists>opts. c = Options (JNum 2 # opts)))) \<and>
   ((sch = None \<or> (\<exists>opts. sch = Some opts \<and> \<not> list_ex recognized opts)) \<longrightarrow>
      generateConfigsFromSchema sch = Inr [Severity 2])"
proof (intro conjI allI impI)
  assume "expandable sch"
  then show "\<exists>cs. generateConfigsFromSchema sch = Inr cs"
  proof (cases sch)
    case None
    then show ?thesis by (simp add: generateConfigsFromSchema_def)
  next
    case (Some opts)
    with \<open>expandable sch\<close>
    obtain rc where "addOptions opts [] = Inr rc"
      using addOptions_total [of opts "[]"] by (auto simp: expandable_def)
    with Some show ?thesis by (simp add: generateConfigsFromSchema_def)
  qed
next
  fix cs
  assume "generateConfigsFromSchema sch = Inr cs"
  then obtain rc where cs: "cs = addErrorSeverity None rc"
    by (auto simp: generateConfigsFromSchema_def split: sum.splits)
  show "\<exists>rest. cs = Severity 2 # rest \<and> (\<forall>c \<in> set rest. \<exists>opts. c = Options (JNum 2 # opts))"
    unfolding cs addErrorSeverity_def Let_def
    by (auto dest: unshifted_heads)
next
  assume "sch = None \<or> (\<exists>opts. sch = Some opts \<and> \<not> list_ex recognized opts)"
  then show "generateConfigsFromSchema sch = Inr [Severity 2]"
    by (auto simp: generateConfigsFromSchema_def addOptions_unrecognized
        addErrorSeverity_def unshifted_def)
qed

text \<open>
  The schema \<open>[{enum: ["always", "never"]}, {type: "object", properties: {before:
  {type: "boolean"}, after: {type: "boolean"}}}]\<close> is expandable and gives the bare
  severity followed by arrays headed by 2; the schema \<open>[{type: "string"}]\<close> has no
  recognized descriptor and gives the bare severity alone.
\<close>

theorem generateConfigsFromSchema_bare_then_error_tuples_witness:
  "expandable
     (Some [OptSchema (Some [JStr ''always'', JStr ''never'']) None None,
            OptSchema None (Some ''object'')
              (Some [(''before'', PropSchema None (Some ''boolean'')),
                     (''after'', PropSchema None (Some ''boolean''))])]) \<and>
   (\<exists>rest. generateConfigsFromSchema
       (Some [OptSchema (Some [JStr ''always'', JStr ''never'']) None None,
              OptSchema None (Some ''object'')
                (Some [(''before'', PropSchema None (Some ''boolean'')),
                       (''after'', PropSchema None (Some ''boolean''))])])
       = Inr (Severity 2 # rest) \<and>
     list_all (\<lambda>c. \<exists>opts. c = Options (JNum 2 # opts)) rest) \<and>
   generateConfigsFromSchema (Some [OptSchema None (Some ''string'') None]) = Inr [Severity 2]"
proof -
  let ?A = "Some [OptSchema (Some [JStr ''always'', JStr ''never'']) None None,
            OptSchema None (Some ''object'')
              (Some [(''before'', PropSchema None (Some ''boolean'')),
                     (''after'', PropSchema None (Some ''boolean''))])]"
  let ?B = "Some [OptSchema None (Some ''string'') None]"
  have wf: "expandable ?A"
    by (simp add: expandable_def Object_prototype_members_def)
  have unrec: "?B = None \<or> (\<exists>opts. ?B = Some opts \<and> \<not> list_ex recognized opts)"
    by (simp add: recognized_def)
  from generateConfigsFromSchema_bare_then_error_tuples [of ?A] wf
  obtain cs where cs: "generateConfigsFromSchema ?A = Inr cs" by blast
  with generateConfigsFromSchema_bare_then_error_tuples [of ?A]
  obtain rest where "cs = Severity 2 # rest"
    and "\<forall>c \<in> set rest. \<exists>opts. c = Options (JNum 2 # opts)" by blast
  then have "\<exists>rest. generateConfigsFromSchema ?A = Inr (Severity 2 # rest) \<and>
     list_all (\<lambda>c. \<exists>opts. c = Options (JNum 2 # opts)) rest"
    using cs by (auto simp: list_all_iff)
  moreover have "generateConfigsFromSchema ?B = Inr [Severity 2]"
    using generateConfigsFromSchema_bare_then_error_tuples [of ?B] unrec by blast
  ultimately show ?thesis using wf by blast
qed

section \<open>Properties of the Registry transforms\<close>

lemma stripFailingConfigs_eq:
  assumes "distinct (map fst reg)"
  shows "stripFailingConfigs s reg =
         List.map_filter (\<lambda>kv. map_option (Pair (fst kv))
             (if errorFree s (snd kv) = [] then None else Some (errorFree s (snd kv)))) reg"
proof -
  have step: "(\<lambda>ruleId newRules.
             case map_of newRules ruleId of
               None \<Rightarrow> newRules
             | Some items \<Rightarrow>
                 (let errorFreeItems = filter (\<lambda>a. errorCount (cells s a) = Count 0) items
                  in if length errorFreeItems > 0
                     then AList.update ruleId errorFreeItems newRules
                     else AList.delete ruleId newRules)) =
        (\<lambda>k m. case map_of m k of
                 None \<Rightarrow> m
               | Some v \<Rightarrow> (case (if errorFree s v = [] then None else Some (errorFree s v)) of
                     Some v' \<Rightarrow> AList.update k v' m | None \<Rightarrow> AList.delete k m))"
    by (intro ext) (simp add: Let_def errorFree_def split: option.splits)
  show ?thesis
    unfolding stripFailingConfigs_def step object_keys_def assign_empty [OF assms]
    using fold_update_or_delete [of "[]" reg] assms by simp
qed

lemma stripExtraConfigs_eq:
  assumes "distinct (map fst reg)"
  shows "stripExtraConfigs s reg =
         map (\<lambda>kv. (fst kv, filter (\<lambda>a. errorCount (cells s a) \<noteq> Undefined) (snd kv))) reg"
proof -
  let ?f = "filter (\<lambda>a. errorCount (cells s a) \<noteq> Undefined)"
  have step: "(\<lambda>ruleId newRules.
             case map_of newRules ruleId of
               None \<Rightarrow> newRules
             | Some items \<Rightarrow> AList.update ruleId (?f items) newRules) =
        (\<lambda>k m. case map_of m k of
                 None \<Rightarrow> m
               | Some v \<Rightarrow> (case Some (?f v) of
                     Some v' \<Rightarrow> AList.update k v' m | None \<Rightarrow> AList.delete k m))"
    by (intro ext) (simp split: option.splits)
  have "List.map_filter (\<lambda>kv. map_option (Pair (fst kv)) (Some (?f (snd kv)))) xs =
        map (\<lambda>kv. (fst kv, ?f (snd kv))) xs" for xs :: registryRules
    by (induction xs) (simp_all add: List.map_filter_simps)
  then show ?thesis
    unfolding stripExtraConfigs_def step object_keys_def assign_empty [OF assms]
    using fold_update_or_delete [of "[]" reg "\<lambda>v. Some (?f v)"] assms by simp
qed

lemma filterBySpecificity_eq:
  assumes "distinct (map fst reg)"
  shows "filterBySpecificity n s reg =
         map (\<lambda>kv. (fst kv, filter (\<lambda>a. specificity (cells s a) = n) (snd kv))) reg"
  unfolding filterBySpecificity_def object_keys_def assign_empty [OF assms]
  using fold_update_from [of "[]" reg reg] assms by simp

lemma map_filter_keys_distinct:
  "distinct (map fst xs) \<Longrightarrow>
     distinct (map fst (List.map_filter (\<lambda>kv. map_option (Pair (fst kv)) (g (snd kv))) xs))"
proof (induction xs)
  case Nil
  show ?case by (simp add: List.map_filter_simps)
next
  case (Cons kv xs)
  have "fst ` set (List.map_filter (\<lambda>kv. map_option (Pair (fst kv)) (g (snd kv))) xs) \<subseteq> fst ` set xs"
    by (auto simp: List.map_filter_def intro: rev_image_eqI)
  with Cons show ?case
    by (cases "g (snd kv)") (auto simp: List.map_filter_simps)
qed

lemma errorFree_idem: "errorFree s (errorFree s items) = errorFree s items"
  by (simp add: errorFree_def)

lemma map_filter_errorFree_idem:
  "List.map_filter (\<lambda>kv. map_option (Pair (fst kv))
       (if errorFree s (snd kv) = [] then None else Some (errorFree s (snd kv))))
     (List.map_filter (\<lambda>kv. map_option (Pair (fst kv))
       (if errorFree s (snd kv) = [] then None else Some (errorFree s (snd kv)))) xs) =
   List.map_filter (\<lambda>kv. map_option (Pair (fst kv))
       (if errorFree s (snd kv) = [] then None else Some (errorFree s (snd kv)))) xs"
  by (induction xs) (simp_all add: List.map_filter_simps errorFree_idem)

lemma map_of_map_filter:
  "map_of (List.map_filter (\<lambda>kv. map_option (Pair (fst kv)) (g (snd kv))) xs) k =
     (case map_of xs k of None \<Rightarrow> None | Some v \<Rightarrow> g v)"
  if "distinct (map fst xs)"
  using that
proof (induction xs)
  case Nil
  show ?case by (simp add: List.map_filter_simps)
next
  case (Cons kv xs)
  have sub: "fst ` set (List.map_filter (\<lambda>kv. map_option (Pair (fst kv)) (g (snd kv))) xs) \<subseteq> fst ` set xs"
    by (auto simp: List.map_filter_def intro: rev_image_eqI)
  show ?case
  proof (cases "g (snd kv)")
    case None
    have "map_of (List.map_filter (\<lambda>kv. map_option (Pair (fst kv)) (g (snd kv))) xs) (fst kv) = None"
      using sub Cons.prems by (auto simp: map_of_eq_None_iff)
    with None Cons show ?thesis
      by (cases kv) (auto simp: List.map_filter_simps)
  next
    case (Some v')
    with Cons show ?thesis
      by (cases kv) (auto simp: List.map_filter_simps)
  qed
qed

text \<open>
  Claim C8. For every store and every registry (an object: each rule id once),
  \<open>stripFailingConfigs\<close> applied twice gives what it gives applied once; one application
  keeps, for every rule, exactly the items whose \<open>errorCount\<close> is 0, and drops a rule
  that is left with none.
\<close>

theorem stripFailingConfigs_idempotent:
  assumes "distinct (map fst reg)"
  shows "stripFailingConfigs s (stripFailingConfigs s reg) = stripFailingConfigs s reg \<and>
         (\<forall>ruleId. map_of (stripFailingConfigs s reg) ruleId =
            (case map_of reg ruleId of
               None \<Rightarrow> None
             | Some items \<Rightarrow>
                 if filter (\<lambda>a. errorCount (cells s a) = Count 0) items = [] then None
                 else Some (filter (\<lambda>a. errorCount (cells s a) = Count 0) items)))"
proof -
  have d: "distinct (map fst (stripFailingConfigs s reg))"
    unfolding stripFailingConfigs_eq [OF assms] by (rule map_filter_keys_distinct [OF assms])
  have "stripFailingConfigs s (stripFailingConfigs s reg) = stripFailingConfigs s reg"
    unfolding stripFailingConfigs_eq [OF d]
    unfolding stripFailingConfigs_eq [OF assms]
    by (rule map_filter_errorFree_idem)
  moreover have "map_of (stripFailingConfigs s reg) ruleId =
            (case map_of reg ruleId of
               None \<Rightarrow> None
             | Some items \<Rightarrow>
                 if filter (\<lambda>a. errorCount (cells s a) = Count 0) items = [] then None
                 else Some (filter (\<lambda>a. errorCount (cells s a) = Count 0) items))" for ruleId
    unfolding stripFailingConfigs_eq [OF assms]
    by (subst map_of_map_filter [OF assms]) (simp add: errorFree_def split: option.splits)
  ultimately show ?thesis by blast
qed

theorem stripFailingConfigs_idempotent_witness:
  "stripFailingConfigs
     (item_store [\<lparr>config = Severity 2, specificity = 1, errorCount = Count 0\<rparr>,
                  \<lparr>config = Options [JNum 2, JStr ''always''], specificity = 2,
                     errorCount = Count 1\<rparr>])
     (stripFailingConfigs
        (item_store [\<lparr>config = Severity 2, specificity = 1, errorCount = Count 0\<rparr>,
                     \<lparr>config = Options [JNum 2, JStr ''always''], specificity = 2,
                        errorCount = Count 1\<rparr>])
        [(''quotes'', [0, 1]), (''semi'', [1])]) = [(''quotes'', [0])]"
proof -
  let ?s = "item_store [\<lparr>config = Severity 2, specificity = 1, errorCount = Count 0\<rparr>,
                  \<lparr>config = Options [JNum 2, JStr ''always''], specificity = 2,
                     errorCount = Count 1\<rparr>]"
  let ?reg = "[(''quotes'', [0, 1]), (''semi'', [1 :: nat])]"
  have d: "distinct (map fst ?reg)" by simp
  have once: "stripFailingConfigs ?s ?reg = [(''quotes'', [0])]"
    by (simp add: stripFailingConfigs_def assign_def object_keys_def item_store_def)
  from stripFailingConfigs_idempotent [OF d, of ?s]
  have "stripFailingConfigs ?s (stripFailingConfigs ?s ?reg) = stripFailingConfigs ?s ?reg"
    by blast
  with once show ?thesis by simp
qed

subsection \<open>The methods on the heap\<close>

lemma map_of_view:
  "map_of (map (\<lambda>kv. (fst kv, f (snd kv))) xs) k = map_option f (map_of xs k)"
  by (induction xs) auto

lemma view_update:
  "map (\<lambda>kv. (fst kv, f (snd kv))) (AList.update k v xs) =
   AList.update k (f v) (map (\<lambda>kv. (fst kv, f (snd kv))) xs)"
  by (induction xs) auto

lemma view_delete:
  "map (\<lambda>kv. (fst kv, f (snd kv))) (AList.delete k xs) =
   AList.delete k (map (\<lambda>kv. (fst kv, f (snd kv))) xs)"
  by (induction xs) auto

lemma view_cong:
  "(\<And>kv. kv \<in> set xs \<Longrightarrow> f (snd kv) = g (snd kv)) \<Longrightarrow>
   map (\<lambda>kv. (fst kv, f (snd kv))) xs = map (\<lambda>kv. (fst kv, g (snd kv))) xs"
  by simp

lemma Registry_copy_fst: "fst (Registry_copy this h) = next_registry h"
  by (simp add: Registry_copy_def new_Registry_def assign_new_def Let_def)

lemma looping_start:
  assumes "allocated h this"
  shows "looping h (snd (Registry_copy this h))"
    and "heap_objects (snd (Registry_copy this h)) (Suc (next_object h))
         = heap_objects h (heap_registries h this)"
    and "heap_arrays (snd (Registry_copy this h)) = heap_arrays h"
    and "next_array (snd (Registry_copy this h)) = next_array h"
  using assms
  by (auto simp: looping_def allocated_def preserved_def set_rules_def assign_new_def
      new_Registry_def assign_empty Registry_copy_def Let_def)

lemma looping_this:
  assumes "allocated h this" and "looping h hh"
  shows "heap_objects hh (heap_registries hh this) = heap_objects h (heap_registries h this)"
    and "registry_rules hh this = registry_rules h this"
proof -
  from assms show o: "heap_objects hh (heap_registries hh this) = heap_objects h (heap_registries h this)"
    by (simp add: allocated_def looping_def preserved_def)
  from assms have "\<And>kv. kv \<in> set (heap_objects h (heap_registries h this)) \<Longrightarrow>
      heap_arrays hh (snd kv) = heap_arrays h (snd kv)"
    by (auto simp: allocated_def looping_def preserved_def list_all_iff)
  then show "registry_rules hh this = registry_rules h this"
    unfolding registry_rules_def o by simp
qed

lemma set_update_subset: "set (AList.update k v xs) \<subseteq> insert (k, v) (set xs)"
  by (induction xs) auto

lemma set_delete_subset: "set (AList.delete k xs) \<subseteq> set xs"
  by (induction xs) auto

lemma looping_array_filter:
  assumes "looping h hh"
  shows "looping h (snd (array_filter P arr hh))"
  using assms
  by (auto simp: looping_def preserved_def array_filter_def list_all_iff)

lemma looping_set_property:
  assumes "looping h hh" and "v < next_array hh"
  shows "looping h (set_property (Suc (next_object h)) ruleId v hh)"
  using assms set_update_subset [of ruleId v "heap_objects hh (Suc (next_object h))"]
  by (auto simp: looping_def preserved_def set_property_def list_all_iff AList.distinct_update)

lemma looping_delete_property:
  assumes "looping h hh"
  shows "looping h (delete_property (Suc (next_object h)) ruleId hh)"
  using assms set_delete_subset [of ruleId "heap_objects hh (Suc (next_object h))"]
  by (auto simp: looping_def preserved_def delete_property_def list_all_iff AList.distinct_delete)

lemma array_filter_simps:
  "fst (array_filter P arr hh) = next_array hh"
  "next_array (snd (array_filter P arr hh)) = Suc (next_array hh)"
  "heap_registries (snd (array_filter P arr hh)) = heap_registries hh"
  "heap_objects (snd (array_filter P arr hh)) = heap_objects hh"
  "heap_items (snd (array_filter P arr hh)) = heap_items hh"
  "heap_arrays (snd (array_filter P arr hh)) =
     (heap_arrays hh)(next_array hh := filter (\<lambda>a. P (cells (heap_items hh) a)) (heap_arrays hh arr))"
  by (simp_all add: array_filter_def)

lemma looping_registry: "looping h hh \<Longrightarrow> heap_registries hh (next_registry h) = Suc (next_object h)"
  by (simp add: looping_def)

lemma stripFailingConfigs_each_looping:
  assumes "looping h hh"
  shows "looping h (stripFailingConfigs_each (next_registry h) ruleId hh)"
  using assms looping_registry [OF assms]
  by (auto simp: stripFailingConfigs_each_def Let_def array_filter_simps split_beta
      intro!: looping_set_property looping_delete_property looping_array_filter
      split: option.splits)

lemma stripExtraConfigs_each_looping:
  assumes "looping h hh"
  shows "looping h (stripExtraConfigs_each (next_registry h) ruleId hh)"
  using assms looping_registry [OF assms]
  by (auto simp: stripExtraConfigs_each_def Let_def array_filter_simps split_beta
      intro!: looping_set_property looping_array_filter
      split: option.splits)

lemma filterBySpecificity_each_looping:
  assumes "looping h hh"
  shows "looping h (filterBySpecificity_each n this (next_registry h) ruleId hh)"
  using assms looping_registry [OF assms]
  by (auto simp: filterBySpecificity_each_def Let_def array_filter_simps split_beta
      intro!: looping_set_property looping_array_filter
      split: option.splits)


lemma view_set_property:
  assumes "\<forall>kv \<in> set xs. snd kv \<noteq> a'"
  shows "map (\<lambda>kv. (fst kv, (f(a' := v)) (snd kv))) (AList.update k a' xs) =
         AList.update k v (map (\<lambda>kv. (fst kv, f (snd kv))) xs)"
  using assms by (induction xs) auto

lemma view_delete_property:
  assumes "\<forall>kv \<in> set xs. snd kv \<noteq> a'"
  shows "map (\<lambda>kv. (fst kv, (f(a' := v)) (snd kv))) (AList.delete k xs) =
         AList.delete k (map (\<lambda>kv. (fst kv, f (snd kv))) xs)"
  using assms by (induction xs) auto

lemma looping_bound:
  "looping h hh \<Longrightarrow> \<forall>kv \<in> set (heap_objects hh (Suc (next_object h))). snd kv \<noteq> next_array hh"
  by (auto simp: looping_def list_all_iff)

lemma looping_items: "looping h hh \<Longrightarrow> heap_items hh = heap_items h"
  by (simp add: looping_def preserved_def)

lemma stripFailingConfigs_each_rules:
  assumes "looping h hh"
  shows "registry_rules (stripFailingConfigs_each (next_registry h) ruleId hh) (next_registry h) =
         (\<lambda>ruleId newRules.
             case map_of newRules ruleId of
               None \<Rightarrow> newRules
             | Some items \<Rightarrow>
                 (let errorFreeItems = filter (\<lambda>a. errorCount (cells (heap_items h) a) = Count 0) items
                  in if length errorFreeItems > 0
                     then AList.update ruleId errorFreeItems newRules
                     else AList.delete ruleId newRules))
           ruleId (registry_rules hh (next_registry h))"
  using looping_registry [OF assms] looping_items [OF assms]
  by (auto simp: registry_rules_def stripFailingConfigs_each_def map_of_view Let_def split_beta
      array_filter_simps set_property_def delete_property_def
      view_set_property [OF looping_bound [OF assms]]
      view_delete_property [OF looping_bound [OF assms]]
      simp del: fun_upd_apply simp: fun_upd_same split: option.splits)

lemma stripExtraConfigs_each_rules:
  assumes "looping h hh"
  shows "registry_rules (stripExtraConfigs_each (next_registry h) ruleId hh) (next_registry h) =
         (\<lambda>ruleId newRules.
             case map_of newRules ruleId of
               None \<Rightarrow> newRules
             | Some items \<Rightarrow>
                 AList.update ruleId
                   (filter (\<lambda>a. errorCount (cells (heap_items h) a) \<noteq> Undefined) items) newRules)
           ruleId (registry_rules hh (next_registry h))"
  using looping_registry [OF assms] looping_items [OF assms]
  by (auto simp: registry_rules_def stripExtraConfigs_each_def map_of_view Let_def split_beta
      array_filter_simps set_property_def
      view_set_property [OF looping_bound [OF assms]]
      simp del: fun_upd_apply simp: fun_upd_same split: option.splits)

lemma looping_this_lookup:
  assumes "allocated h this" and "looping h hh"
  shows "map_of (registry_rules h this) ruleId =
      map_option (heap_arrays hh) (map_of (heap_objects hh (heap_registries hh this)) ruleId)"
proof -
  have "map_of (registry_rules hh this) ruleId =
      map_option (heap_arrays hh) (map_of (heap_objects hh (heap_registries hh this)) ruleId)"
    by (simp add: registry_rules_def map_of_view)
  then show ?thesis by (simp add: looping_this(2) [OF assms])
qed

lemma filterBySpecificity_each_rules:
  assumes "allocated h this" and "looping h hh"
  shows "registry_rules (filterBySpecificity_each n this (next_registry h) ruleId hh) (next_registry h) =
         (\<lambda>ruleId newRules.
             case map_of (registry_rules h this) ruleId of
               None \<Rightarrow> newRules
             | Some items \<Rightarrow>
                 AList.update ruleId
                   (filter (\<lambda>a. specificity (cells (heap_items h) a) = n) items) newRules)
           ruleId (registry_rules hh (next_registry h))"
  unfolding looping_this_lookup [OF assms]
  using looping_registry [OF assms(2)] looping_items [OF assms(2)]
  by (auto simp: registry_rules_def filterBySpecificity_each_def Let_def split_beta
      array_filter_simps set_property_def
      view_set_property [OF looping_bound [OF assms(2)]]
      simp del: fun_upd_apply simp: fun_upd_same split: option.splits)


lemma set_update_distinct:
  "distinct (map fst xs) \<Longrightarrow> kv \<in> set (AList.update k v xs) \<Longrightarrow>
     kv = (k, v) \<or> (kv \<in> set xs \<and> fst kv \<noteq> k)"
  by (induction xs) (auto split: if_splits)

lemma set_delete_other:
  "kv \<in> set (AList.delete k xs) \<Longrightarrow> kv \<in> set xs \<and> fst kv \<noteq> k"
  by (induction xs) (auto split: if_splits)

lemma renewed_set_property:
  assumes "looping h hh" and "renewed h hh S" and "next_array h \<le> v"
  shows "renewed h (set_property (Suc (next_object h)) ruleId v hh) (insert ruleId S)"
proof -
  from assms(1) have d: "distinct (map fst (heap_objects hh (Suc (next_object h))))"
    by (simp add: looping_def)
  show ?thesis
    using assms(2,3)
    by (auto simp: renewed_def set_property_def dest!: set_update_distinct [OF d])
qed

lemma renewed_delete_property:
  assumes "renewed h hh S"
  shows "renewed h (delete_property (Suc (next_object h)) ruleId hh) (insert ruleId S)"
  using assms by (auto simp: renewed_def delete_property_def dest!: set_delete_other)

lemma renewed_absent:
  assumes "renewed h hh S" and "map_of (heap_objects hh (Suc (next_object h))) ruleId = None"
  shows "renewed h hh (insert ruleId S)"
  using assms by (auto simp: renewed_def map_of_eq_None_iff)

lemma renewed_array_filter:
  "renewed h hh S \<Longrightarrow> renewed h (snd (array_filter P arr hh)) S"
  by (simp add: renewed_def array_filter_simps)

lemma looping_next_array: "looping h hh \<Longrightarrow> next_array h \<le> next_array hh"
  by (simp add: looping_def preserved_def)

lemma stripFailingConfigs_each_renewed:
  assumes "looping h hh" and "renewed h hh S"
  shows "renewed h (stripFailingConfigs_each (next_registry h) ruleId hh) (insert ruleId S)"
proof (cases "map_of (heap_objects hh (Suc (next_object h))) ruleId")
  case None
  with renewed_absent [OF assms(2) None] looping_registry [OF assms(1)] show ?thesis
    by (simp add: stripFailingConfigs_each_def)
next
  case (Some arr)
  let ?P = "\<lambda>item. errorCount item = Count 0"
  have l: "looping h (snd (array_filter ?P arr hh))"
    by (rule looping_array_filter [OF assms(1)])
  have r: "renewed h (snd (array_filter ?P arr hh)) S"
    by (rule renewed_array_filter [OF assms(2)])
  from Some looping_registry [OF assms(1)] looping_next_array [OF assms(1)]
    renewed_set_property [OF l r, of "next_array hh" ruleId]
    renewed_delete_property [OF r, of ruleId]
  show ?thesis
    by (simp add: stripFailingConfigs_each_def Let_def split_beta array_filter_simps)
qed

lemma stripExtraConfigs_each_renewed:
  assumes "looping h hh" and "renewed h hh S"
  shows "renewed h (stripExtraConfigs_each (next_registry h) ruleId hh) (insert ruleId S)"
proof (cases "map_of (heap_objects hh (Suc (next_object h))) ruleId")
  case None
  with renewed_absent [OF assms(2) None] looping_registry [OF assms(1)] show ?thesis
    by (simp add: stripExtraConfigs_each_def)
next
  case (Some arr)
  let ?P = "\<lambda>item. errorCount item \<noteq> Undefined"
  have l: "looping h (snd (array_filter ?P arr hh))"
    by (rule looping_array_filter [OF assms(1)])
  have r: "renewed h (snd (array_filter ?P arr hh)) S"
    by (rule renewed_array_filter [OF assms(2)])
  from Some looping_registry [OF assms(1)] looping_next_array [OF assms(1)]
    renewed_set_property [OF l r, of "next_array hh" ruleId]
  show ?thesis
    by (simp add: stripExtraConfigs_each_def Let_def split_beta array_filter_simps)
qed

lemma filterBySpecificity_each_renewed:
  assumes "allocated h this" and "looping h hh" and "renewed h hh S"
    and "ruleId \<in> fst ` set (heap_objects h (heap_registries h this))"
  shows "renewed h (filterBySpecificity_each n this (next_registry h) ruleId hh) (insert ruleId S)"
proof -
  from assms(4) obtain arr where
    "map_of (heap_objects hh (heap_registries hh this)) ruleId = Some arr"
    unfolding looping_this(1) [OF assms(1,2)]
    by (cases "map_of (heap_objects h (heap_registries h this)) ruleId")
       (auto simp: map_of_eq_None_iff)
  let ?P = "\<lambda>item. specificity item = n"
  have l: "looping h (snd (array_filter ?P arr hh))"
    by (rule looping_array_filter [OF assms(2)])
  have r: "renewed h (snd (array_filter ?P arr hh)) S"
    by (rule renewed_array_filter [OF assms(3)])
  from \<open>map_of (heap_objects hh (heap_registries hh this)) ruleId = Some arr\<close>
    looping_registry [OF assms(2)] looping_next_array [OF assms(2)]
    renewed_set_property [OF l r, of "next_array hh" ruleId]
  show ?thesis
    by (simp add: filterBySpecificity_each_def Let_def split_beta array_filter_simps)
qed

lemma stripFailingConfigs_loop:
  assumes "looping h hh" and "renewed h hh S"
  shows "looping h (fold (stripFailingConfigs_each (next_registry h)) ks hh) \<and>
         renewed h (fold (stripFailingConfigs_each (next_registry h)) ks hh) (S \<union> set ks) \<and>
         registry_rules (fold (stripFailingConfigs_each (next_registry h)) ks hh) (next_registry h) =
         fold (\<lambda>ruleId newRules.
             case map_of newRules ruleId of
               None \<Rightarrow> newRules
             | Some items \<Rightarrow>
                 (let errorFreeItems = filter (\<lambda>a. errorCount (cells (heap_items h) a) = Count 0) items
                  in if length errorFreeItems > 0
                     then AList.update ruleId errorFreeItems newRules
                     else AList.delete ruleId newRules))
           ks (registry_rules hh (next_registry h))"
  using assms
proof (induction ks arbitrary: hh S)
  case Nil
  then show ?case by simp
next
  case (Cons k ks)
  from Cons.IH [OF stripFailingConfigs_each_looping [OF Cons.prems(1), of k]
      stripFailingConfigs_each_renewed [OF Cons.prems, of k]]
  show ?case
    by (simp add: stripFailingConfigs_each_rules [OF Cons.prems(1)])
qed

lemma stripExtraConfigs_loop:
  assumes "looping h hh" and "renewed h hh S"
  shows "looping h (fold (stripExtraConfigs_each (next_registry h)) ks hh) \<and>
         renewed h (fold (stripExtraConfigs_each (next_registry h)) ks hh) (S \<union> set ks) \<and>
         registry_rules (fold (stripExtraConfigs_each (next_registry h)) ks hh) (next_registry h) =
         fold (\<lambda>ruleId newRules.
             case map_of newRules ruleId of
               None \<Rightarrow> newRules
             | Some items \<Rightarrow>
                 AList.update ruleId
                   (filter (\<lambda>a. errorCount (cells (heap_items h) a) \<noteq> Undefined) items) newRules)
           ks (registry_rules hh (next_registry h))"
  using assms
proof (induction ks arbitrary: hh S)
  case Nil
  then show ?case by simp
next
  case (Cons k ks)
  from Cons.IH [OF stripExtraConfigs_each_looping [OF Cons.prems(1), of k]
      stripExtraConfigs_each_renewed [OF Cons.prems, of k]]
  show ?case
    by (simp add: stripExtraConfigs_each_rules [OF Cons.prems(1)])
qed

lemma filterBySpecificity_loop:
  assumes "allocated h this" and "looping h hh" and "renewed h hh S"
    and "set ks \<subseteq> fst ` set (heap_objects h (heap_registries h this))"
  shows "looping h (fold (filterBySpecificity_each n this (next_registry h)) ks hh) \<and>
         renewed h (fold (filterBySpecificity_each n this (next_registry h)) ks hh) (S \<union> set ks) \<and>
         registry_rules (fold (filterBySpecificity_each n this (next_registry h)) ks hh) (next_registry h) =
         fold (\<lambda>ruleId newRules.
             case map_of (registry_rules h this) ruleId of
               None \<Rightarrow> newRules
             | Some items \<Rightarrow>
                 AList.update ruleId
                   (filter (\<lambda>a. specificity (cells (heap_items h) a) = n) items) newRules)
           ks (registry_rules hh (next_registry h))"
  using assms(2-)
proof (induction ks arbitrary: hh S)
  case Nil
  then show ?case by simp
next
  case (Cons k ks)
  from Cons.prems(3) have k: "k \<in> fst ` set (heap_objects h (heap_registries h this))"
    and ks: "set ks \<subseteq> fst ` set (heap_objects h (heap_registries h this))" by auto
  from Cons.IH [OF filterBySpecificity_each_looping [OF Cons.prems(1), of n this k]
      filterBySpecificity_each_renewed [OF assms(1) Cons.prems(1,2) k, of n] ks]
  show ?case
    by (simp add: filterBySpecificity_each_rules [OF assms(1) Cons.prems(1)])
qed


lemma looping_start_rules:
  assumes "allocated h this"
  shows "registry_rules (snd (Registry_copy this h)) (next_registry h) = registry_rules h this"
  using looping_registry [OF looping_start(1) [OF assms]] looping_start(2,3) [OF assms]
  by (simp add: registry_rules_def)

lemma renewed_start: "renewed h (snd (Registry_copy this h)) {}"
  by (simp add: renewed_def)

lemma registry_rules_keys:
  "map fst (registry_rules h r) = map fst (heap_objects h (heap_registries h r))"
  by (simp add: registry_rules_def comp_def)

lemma allocated_distinct: "allocated h this \<Longrightarrow> distinct (map fst (registry_rules h this))"
  by (simp add: registry_rules_keys allocated_def)

lemma looping_newly_allocated:
  assumes "looping h hh" and "renewed h hh S"
    and "fst ` set (registry_rules hh (next_registry h)) \<subseteq> S"
  shows "newly_allocated h hh (next_registry h)"
proof -
  have "fst ` set (heap_objects hh (Suc (next_object h))) \<subseteq> S"
    using assms(3) looping_registry [OF assms(1)]
    by (simp add: registry_rules_def image_image)
  then show ?thesis
    using assms(1,2)
    by (auto simp: newly_allocated_def looping_def renewed_def list_all_iff)
qed

lemma looping_preserved: "looping h hh \<Longrightarrow> preserved h hh"
  by (simp add: looping_def)

lemma Registry_stripFailingConfigs_refines:
  assumes "allocated h this"
  shows "fst (Registry_stripFailingConfigs this h) = next_registry h"
    and "looping h (snd (Registry_stripFailingConfigs this h))"
    and "renewed h (snd (Registry_stripFailingConfigs this h))
           (fst ` set (registry_rules h this))"
    and "registry_rules (snd (Registry_stripFailingConfigs this h)) (next_registry h) =
         stripFailingConfigs (heap_items h) (registry_rules h this)"
proof -
  let ?ks = "map fst (heap_objects h (heap_registries h this))"
  have m: "Registry_stripFailingConfigs this h =
      (next_registry h, fold (stripFailingConfigs_each (next_registry h)) ?ks
         (snd (Registry_copy this h)))"
    using Registry_copy_fst [of this h]
    by (simp add: Registry_stripFailingConfigs_def Let_def split_beta object_keys_def)
  note loop = stripFailingConfigs_loop [OF looping_start(1) [OF assms] renewed_start [of h this], of ?ks]
  show "fst (Registry_stripFailingConfigs this h) = next_registry h" by (simp add: m)
  show "looping h (snd (Registry_stripFailingConfigs this h))" using loop by (simp add: m)
  show "renewed h (snd (Registry_stripFailingConfigs this h)) (fst ` set (registry_rules h this))"
    using loop by (simp add: m registry_rules_def image_image)
  show "registry_rules (snd (Registry_stripFailingConfigs this h)) (next_registry h) =
         stripFailingConfigs (heap_items h) (registry_rules h this)"
    using loop
    by (simp add: m looping_start_rules [OF assms] stripFailingConfigs_def object_keys_def
        registry_rules_keys assign_empty [OF allocated_distinct [OF assms]])
qed

lemma Registry_stripExtraConfigs_refines:
  assumes "allocated h this"
  shows "fst (Registry_stripExtraConfigs this h) = next_registry h"
    and "looping h (snd (Registry_stripExtraConfigs this h))"
    and "renewed h (snd (Registry_stripExtraConfigs this h))
           (fst ` set (registry_rules h this))"
    and "registry_rules (snd (Registry_stripExtraConfigs this h)) (next_registry h) =
         stripExtraConfigs (heap_items h) (registry_rules h this)"
proof -
  let ?ks = "map fst (heap_objects h (heap_registries h this))"
  have m: "Registry_stripExtraConfigs this h =
      (next_registry h, fold (stripExtraConfigs_each (next_registry h)) ?ks
         (snd (Registry_copy this h)))"
    using Registry_copy_fst [of this h]
    by (simp add: Registry_stripExtraConfigs_def Let_def split_beta object_keys_def)
  note loop = stripExtraConfigs_loop [OF looping_start(1) [OF assms] renewed_start [of h this], of ?ks]
  show "fst (Registry_stripExtraConfigs this h) = next_registry h" by (simp add: m)
  show "looping h (snd (Registry_stripExtraConfigs this h))" using loop by (simp add: m)
  show "renewed h (snd (Registry_stripExtraConfigs this h)) (fst ` set (registry_rules h this))"
    using loop by (simp add: m registry_rules_def image_image)
  show "registry_rules (snd (Registry_stripExtraConfigs this h)) (next_registry h) =
         stripExtraConfigs (heap_items h) (registry_rules h this)"
    using loop
    by (simp add: m looping_start_rules [OF assms] stripExtraConfigs_def object_keys_def
        registry_rules_keys assign_empty [OF allocated_distinct [OF assms]])
qed

lemma Registry_filterBySpecificity_refines:
  assumes "allocated h this"
  shows "fst (Registry_filterBySpecificity n this h) = next_registry h"
    and "looping h (snd (Registry_filterBySpecificity n this h))"
    and "renewed h (snd (Registry_filterBySpecificity n this h))
           (fst ` set (registry_rules h this))"
    and "registry_rules (snd (Registry_filterBySpecificity n this h)) (next_registry h) =
         filterBySpecificity n (heap_items h) (registry_rules h this)"
proof -
  let ?ks = "map fst (heap_objects h (heap_registries h this))"
  have m: "Registry_filterBySpecificity n this h =
      (next_registry h, fold (filterBySpecificity_each n this (next_registry h)) ?ks
         (snd (Registry_copy this h)))"
    using Registry_copy_fst [of this h]
    by (simp add: Registry_filterBySpecificity_def Let_def split_beta object_keys_def)
  have sub: "set ?ks \<subseteq> fst ` set (heap_objects h (heap_registries h this))" by simp
  note loop = filterBySpecificity_loop [OF assms looping_start(1) [OF assms]
      renewed_start [of h this] sub, of n]
  show "fst (Registry_filterBySpecificity n this h) = next_registry h" by (simp add: m)
  show "looping h (snd (Registry_filterBySpecificity n this h))" using loop by (simp add: m)
  show "renewed h (snd (Registry_filterBySpecificity n this h)) (fst ` set (registry_rules h this))"
    using loop by (simp add: m registry_rules_def image_image)
  show "registry_rules (snd (Registry_filterBySpecificity n this h)) (next_registry h) =
         filterBySpecificity n (heap_items h) (registry_rules h this)"
    using loop
    by (simp add: m looping_start_rules [OF assms] filterBySpecificity_def object_keys_def
        registry_rules_keys assign_empty [OF allocated_distinct [OF assms]])
qed

lemma map_filter_keys_subset:
  "fst ` set (List.map_filter (\<lambda>kv. map_option (Pair (fst kv)) (g (snd kv))) xs) \<subseteq> fst ` set xs"
  by (auto simp: List.map_filter_def intro: rev_image_eqI)

text \<open>
  Claim C3, as amended. For every heap and every Registry \<open>this\<close> of it, each of
  \<open>stripFailingConfigs\<close>, \<open>stripExtraConfigs\<close> and \<open>filterBySpecificity\<close> returns a Registry
  that is new, with a new \<open>rules\<close> object and new arrays, and writes to nothing that
  existed before the call: every item (its configuration, specificity and counter),
  every array, every \<open>rules\<close> object and every Registry of the heap is as it was, the
  input registry among them. The arrays of the returned registry hold the input's
  arrays filtered: the item references in them are the input's own, to the same items.
\<close>

theorem transforms_return_new_registry_and_keep_heap:
  assumes "allocated h this"
  shows "(case Registry_stripFailingConfigs this h of (r, h') \<Rightarrow>
            preserved h h' \<and> newly_allocated h h' r \<and>
            registry_rules h' this = registry_rules h this \<and>
            registry_rules h' r =
              List.map_filter (\<lambda>kv. map_option (Pair (fst kv))
                (if errorFree (heap_items h) (snd kv) = [] then None
                 else Some (errorFree (heap_items h) (snd kv)))) (registry_rules h this)) \<and>
         (case Registry_stripExtraConfigs this h of (r, h') \<Rightarrow>
            preserved h h' \<and> newly_allocated h h' r \<and>
            registry_rules h' this = registry_rules h this \<and>
            registry_rules h' r =
              map (\<lambda>kv. (fst kv, filter (\<lambda>a. errorCount (cells (heap_items h) a) \<noteq> Undefined)
                                     (snd kv))) (registry_rules h this)) \<and>
         (case Registry_filterBySpecificity n this h of (r, h') \<Rightarrow>
            preserved h h' \<and> newly_allocated h h' r \<and>
            registry_rules h' this = registry_rules h this \<and>
            registry_rules h' r =
              map (\<lambda>kv. (fst kv, filter (\<lambda>a. specificity (cells (heap_items h) a) = n) (snd kv)))
                (registry_rules h this))"
proof -
  note d = allocated_distinct [OF assms]
  have one: "preserved h (snd (Registry_stripFailingConfigs this h)) \<and>
      newly_allocated h (snd (Registry_stripFailingConfigs this h))
        (fst (Registry_stripFailingConfigs this h)) \<and>
      registry_rules (snd (Registry_stripFailingConfigs this h)) this = registry_rules h this \<and>
      registry_rules (snd (Registry_stripFailingConfigs this h))
        (fst (Registry_stripFailingConfigs this h)) =
        List.map_filter (\<lambda>kv. map_option (Pair (fst kv))
                (if errorFree (heap_items h) (snd kv) = [] then None
                 else Some (errorFree (heap_items h) (snd kv)))) (registry_rules h this)"
  proof -
    note r = Registry_stripFailingConfigs_refines [OF assms]
    have c: "registry_rules (snd (Registry_stripFailingConfigs this h)) (next_registry h) =
        List.map_filter (\<lambda>kv. map_option (Pair (fst kv))
                (if errorFree (heap_items h) (snd kv) = [] then None
                 else Some (errorFree (heap_items h) (snd kv)))) (registry_rules h this)"
      unfolding r(4) by (rule stripFailingConfigs_eq [OF d])
    have "newly_allocated h (snd (Registry_stripFailingConfigs this h)) (next_registry h)"
      by (rule looping_newly_allocated [OF r(2,3)])
         (simp only: c map_filter_keys_subset [where g = "\<lambda>v. if errorFree (heap_items h) v = []
            then None else Some (errorFree (heap_items h) v)"])
    then show ?thesis
      using looping_preserved [OF r(2)] looping_this(2) [OF assms r(2)] c
      by (simp add: r(1))
  qed
  have two: "preserved h (snd (Registry_stripExtraConfigs this h)) \<and>
      newly_allocated h (snd (Registry_stripExtraConfigs this h))
        (fst (Registry_stripExtraConfigs this h)) \<and>
      registry_rules (snd (Registry_stripExtraConfigs this h)) this = registry_rules h this \<and>
      registry_rules (snd (Registry_stripExtraConfigs this h))
        (fst (Registry_stripExtraConfigs this h)) =
        map (\<lambda>kv. (fst kv, filter (\<lambda>a. errorCount (cells (heap_items h) a) \<noteq> Undefined)
                                     (snd kv))) (registry_rules h this)"
  proof -
    note r = Registry_stripExtraConfigs_refines [OF assms]
    have c: "registry_rules (snd (Registry_stripExtraConfigs this h)) (next_registry h) =
        map (\<lambda>kv. (fst kv, filter (\<lambda>a. errorCount (cells (heap_items h) a) \<noteq> Undefined)
                                     (snd kv))) (registry_rules h this)"
      unfolding r(4) by (rule stripExtraConfigs_eq [OF d])
    have "newly_allocated h (snd (Registry_stripExtraConfigs this h)) (next_registry h)"
      by (rule looping_newly_allocated [OF r(2,3)]) (simp add: c image_image)
    then show ?thesis
      using looping_preserved [OF r(2)] looping_this(2) [OF assms r(2)] c
      by (simp add: r(1))
  qed
  have three: "preserved h (snd (Registry_filterBySpecificity n this h)) \<and>
      newly_allocated h (snd (Registry_filterBySpecificity n this h))
        (fst (Registry_filterBySpecificity n this h)) \<and>
      registry_rules (snd (Registry_filterBySpecificity n this h)) this = registry_rules h this \<and>
      registry_rules (snd (Registry_filterBySpecificity n this h))
        (fst (Registry_filterBySpecificity n this h)) =
        map (\<lambda>kv. (fst kv, filter (\<lambda>a. specificity (cells (heap_items h) a) = n) (snd kv)))
                (registry_rules h this)"
  proof -
    note r = Registry_filterBySpecificity_refines [OF assms, of n]
    have c: "registry_rules (snd (Registry_filterBySpecificity n this h)) (next_registry h) =
        map (\<lambda>kv. (fst kv, filter (\<lambda>a. specificity (cells (heap_items h) a) = n) (snd kv)))
                (registry_rules h this)"
      unfolding r(4) by (rule filterBySpecificity_eq [OF d])
    have "newly_allocated h (snd (Registry_filterBySpecificity n this h)) (next_registry h)"
      by (rule looping_newly_allocated [OF r(2,3)]) (simp add: c image_image)
    then show ?thesis
      using looping_preserved [OF r(2)] looping_this(2) [OF assms r(2)] c
      by (simp add: r(1))
  qed
  from one two three show ?thesis by (simp add: split_beta)
qed

text \<open>On the heap with the one registry \<open>{quotes: [item 0, item 1]}\<close>.\<close>

theorem transforms_return_new_registry_and_keep_heap_witness:
  "allocated quotes_heap 0 \<and>
   registry_rules (snd (Registry_stripFailingConfigs 0 quotes_heap))
     (fst (Registry_stripFailingConfigs 0 quotes_heap)) = [(''quotes'', [0])] \<and>
   registry_rules (snd (Registry_stripFailingConfigs 0 quotes_heap)) 0 = [(''quotes'', [0, 1])] \<and>
   registry_rules (snd (Registry_stripExtraConfigs 0 quotes_heap))
     (fst (Registry_stripExtraConfigs 0 quotes_heap)) = [(''quotes'', [0])] \<and>
   registry_rules (snd (Registry_stripExtraConfigs 0 quotes_heap)) 0 = [(''quotes'', [0, 1])] \<and>
   registry_rules (snd (Registry_filterBySpecificity 2 0 quotes_heap))
     (fst (Registry_filterBySpecificity 2 0 quotes_heap)) = [(''quotes'', [1])] \<and>
   registry_rules (snd (Registry_filterBySpecificity 2 0 quotes_heap)) 0 = [(''quotes'', [0, 1])]"
proof -
  have a: "allocated quotes_heap 0"
    by (simp add: allocated_def quotes_heap_def)
  have v: "registry_rules quotes_heap 0 = [(''quotes'', [0, 1])]"
    by (simp add: registry_rules_def quotes_heap_def)
  have i: "heap_items quotes_heap =
      item_store [\<lparr>config = Severity 2, specificity = 1, errorCount = Count 0\<rparr>,
                  \<lparr>config = Options [JNum 2, JStr ''always''], specificity = 2,
                     errorCount = Undefined\<rparr>]"
    by (simp add: quotes_heap_def)
  from transforms_return_new_registry_and_keep_heap [OF a, of 2]
  show ?thesis
    unfolding v i
    using a by (simp add: split_beta List.map_filter_simps errorFree_def item_store_def)
qed

text \<open>
  The claim as stated fails where it says that counter mutations made through one
  registry are not seen through the other: the items are shared. The registry \<open>{semi: [item]}\<close> has one item,
  not yet evaluated. \<open>filterBySpecificity(1)\<close> returns a registry; the evaluation pass
  run on that registry, over one file for which the evaluator reports one finding of
  \<open>semi\<close>, leaves the item of the first registry with the counter 1.
\<close>

theorem transforms_share_counters_with_input:
  "registry_view
     (item_store [\<lparr>config = Severity 2, specificity = 1, errorCount = Undefined\<rparr>])
     [(''semi'', [0])] =
     [(''semi'', [\<lparr>config = Severity 2, specificity = 1, errorCount = Undefined\<rparr>])] \<and>
   registry_view
     (pass_store (snd (lintSourceCode
        (\<lambda>(src :: unit option) (cfg :: eslintConfig). (Inr [''semi''] :: unit + string list))
        False \<lparr>rules = [], extends = None\<rparr>
        (filterBySpecificity 1
           (item_store [\<lparr>config = Severity 2, specificity = 1, errorCount = Undefined\<rparr>])
           [(''semi'', [0])])
        [(''a.js'', Some ())]
        (item_store [\<lparr>config = Severity 2, specificity = 1, errorCount = Undefined\<rparr>]))))
     [(''semi'', [0])] =
     [(''semi'', [\<lparr>config = Severity 2, specificity = 1, errorCount = Count 1\<rparr>])]"
  by (simp add: registry_view_def item_store_def filterBySpecificity_def assign_def
      object_keys_def lintSourceCode_def lintFile_def lintRuleSet_def increment_def
      buildRuleSets_def buildRuleSets_loop_unfold buildRound_def addRuleToRuleSet_def
      MAX_CONFIG_COMBINATIONS_def second_is_object_def stripExtraConfigs_def Let_def)

section \<open>Properties of createConfig\<close>

lemma createConfig_fold_lookup:
  "map_of (fold (\<lambda>ruleId configRules.
                   case map_of thisRules ruleId of
                     Some [a] \<Rightarrow> AList.update ruleId (config (cells s a)) configRules
                   | _ \<Rightarrow> configRules) ids acc) r =
   (case (if r \<in> set ids then map_of thisRules r else None) of
      Some [a] \<Rightarrow> Some (config (cells s a))
    | _ \<Rightarrow> map_of acc r)"
proof (induction ids arbitrary: acc)
  case Nil
  show ?case by simp
next
  case (Cons i ids)
  show ?case
    by (simp add: Cons.IH AList.update_conv' split: option.splits list.splits)
qed

text \<open>
  Claim C7, as amended. For every store and registry, \<open>createConfig\<close> returns a
  configuration object whose \<open>rules\<close> section maps exactly the rule ids whose item
  array has length one, each to the configuration of its only item, and which has no
  \<open>extends\<close> entry.
\<close>

theorem createConfig_rules_of_single_items:
  "map_of (rules (createConfig s thisRules)) ruleId =
     (case map_of thisRules ruleId of
        Some [a] \<Rightarrow> Some (config (cells s a))
      | _ \<Rightarrow> None) \<and>
   extends (createConfig s thisRules) = None"
proof -
  have "ruleId \<in> set (object_keys thisRules)" if "map_of thisRules ruleId = Some items" for items
    using that by (auto simp: object_keys_def dest: map_of_SomeD intro: rev_image_eqI)
  then show ?thesis
    unfolding createConfig_def
    by (auto simp: createConfig_fold_lookup split: option.splits list.splits)
qed

text \<open>
  The claim as stated fails: for the registry \<open>{semi: [item]}\<close> whose only item has the
  configuration 2, the object \<open>createConfig\<close> returns has the single key \<open>rules\<close>; the
  rule id \<open>semi\<close> is a key of its \<open>rules\<close> section, not of the object returned.
\<close>

theorem createConfig_returns_config_object:
  "config_keys (createConfig
      (item_store [\<lparr>config = Severity 2, specificity = 1, errorCount = Count 0\<rparr>])
      [(''semi'', [0])]) = [''rules''] \<and>
   rules (createConfig
      (item_store [\<lparr>config = Severity 2, specificity = 1, errorCount = Count 0\<rparr>])
      [(''semi'', [0])]) = [(''semi'', Severity 2)]"
  by (simp add: createConfig_def config_keys_def object_keys_def item_store_def)

section \<open>Properties of buildRuleSets\<close>

lemma explodeArray_fold: "fold (\<lambda>x accumulator. accumulator @ [[x]]) xs acc = acc @ map (\<lambda>x. [x]) xs"
  by (induction xs arbitrary: acc) simp_all

lemma explodeArray_map: "explodeArray xs = map (\<lambda>x. [x]) xs"
  by (simp add: explodeArray_def explodeArray_fold)

lemma unshifted_fold_vals:
  "fold (\<lambda>cfg done.
             done @ [JNum severity #
               map (\<lambda>e. case e of
                          Val v \<Rightarrow> v
                        | Ref i \<Rightarrow> if i < length done then JArr (done ! i) else JUndefined)
                   cfg]) (map (\<lambda>v. [Val v]) vs) acc
   = acc @ map (\<lambda>v. [JNum severity, v]) vs"
  by (induction vs arbitrary: acc) simp_all

lemma generate_single_enum:
  "generateConfigsFromSchema (Some [OptSchema (Some vs) None None]) =
     Inr (Severity 2 # map (\<lambda>v. Options [JNum 2, v]) vs)"
  by (simp add: generateConfigsFromSchema_def addOption_def addEnums_def combineArrays_def
      explodeArray_map addErrorSeverity_def unshifted_def unshifted_fold_vals comp_def)


lemma newItems_spec:
  assumes "newItems cs s = (items, s')"
  shows "items = [fresh s ..< fresh s + length cs] \<and>
         (\<forall>a. cells s' a =
            (if fresh s \<le> a \<and> a < fresh s + length cs
             then \<lparr>config = cs ! (a - fresh s),
                    specificity = config_specificity (cs ! (a - fresh s)),
                    errorCount = Undefined\<rparr>
             else cells s a))"
  using assms
proof (induction cs arbitrary: s items s')
  case Nil
  then show ?case by auto
next
  case (Cons c cs)
  let ?s1 = "s\<lparr>cells := (cells s)
                  (fresh s := \<lparr>config = c, specificity = config_specificity c,
                         errorCount = Undefined\<rparr>),
                fresh := Suc (fresh s)\<rparr>"
  obtain items1 s2 where rec: "newItems cs ?s1 = (items1, s2)"
    by (cases "newItems cs ?s1")
  with Cons.prems have res: "items = fresh s # items1" "s' = s2"
    by (simp_all add: Let_def)
  from Cons.IH [OF rec]
  have i1: "items1 = [Suc (fresh s) ..< Suc (fresh s) + length cs]"
    and c1: "\<And>a. cells s2 a =
            (if Suc (fresh s) \<le> a \<and> a < Suc (fresh s) + length cs
             then \<lparr>config = cs ! (a - Suc (fresh s)),
                    specificity = config_specificity (cs ! (a - Suc (fresh s))),
                    errorCount = Undefined\<rparr>
             else cells ?s1 a)"
    by simp_all
  have "items = [fresh s ..< fresh s + length (c # cs)]"
    unfolding res i1 by (simp add: upt_rec)
  moreover have "cells s' a =
            (if fresh s \<le> a \<and> a < fresh s + length (c # cs)
             then \<lparr>config = (c # cs) ! (a - fresh s),
                    specificity = config_specificity ((c # cs) ! (a - fresh s)),
                    errorCount = Undefined\<rparr>
             else cells s a)" for a
  proof (cases "a = fresh s")
    case True
    then show ?thesis unfolding res c1 by simp
  next
    case False
    then show ?thesis unfolding res c1
      by (auto simp: nth_Cons' Suc_diff_le)
  qed
  ultimately show ?case by blast
qed

lemma buildRound_single:
  "buildRound [(r, items)] idx s =
     (if idx < length items \<and> eligible s items idx
      then (s\<lparr>cells := (cells s)
                (items ! idx := (cells s (items ! idx))\<lparr>errorCount := Count 0\<rparr>)\<rparr>,
            Some [(r, config (cells s (items ! idx)))])
      else (s, None))"
  by (auto simp: buildRound_def addRuleToRuleSet_def object_keys_def Let_def eligible_def)

lemma buildRuleSets_loop_single:
  assumes "\<forall>i < length items. eligible s0 items i"
    and "same_configs s s0" and "idx \<le> length items" and "length acc = idx"
  shows "length (snd (buildRuleSets_loop [(r, items)] idx s acc)) = length items"
  using assms(2-)
proof (induction "length items - idx" arbitrary: idx s acc)
  case 0
  then have "idx = length items" by simp
  then show ?case
    using 0 by (subst buildRuleSets_loop_unfold) (simp add: buildRound_single)
next
  case (Suc k)
  then have lt: "idx < length items" by simp
  have el: "eligible s items idx"
    using assms(1) lt Suc.prems(1) by (simp add: eligible_def same_configs_def)
  let ?s1 = "s\<lparr>cells := (cells s)
                (items ! idx := (cells s (items ! idx))\<lparr>errorCount := Count 0\<rparr>)\<rparr>"
  have sc: "same_configs ?s1 s0"
    using Suc.prems(1) by (simp add: same_configs_def)
  have "length (snd (buildRuleSets_loop [(r, items)] (Suc idx) ?s1
            (acc @ [[(r, config (cells s (items ! idx)))]]))) = length items"
    using Suc.hyps(2) lt Suc.prems(3)
    by (intro Suc.hyps(1) [OF _ sc]) simp_all
  then show ?case
    using lt el Suc.prems(3)
    by (subst buildRuleSets_loop_unfold) (simp add: buildRound_single)
qed

lemma buildRuleSets_single:
  assumes "\<forall>i < length items. eligible s items i"
  shows "length (snd (buildRuleSets [(r, items)] s)) = length items"
  unfolding buildRuleSets_def
  by (rule buildRuleSets_loop_single [OF assms]) (simp_all add: same_configs_def)

text \<open>
  Claim C2 fails on the code. For every \<open>n\<close>, the rule whose schema is one enum of \<open>n\<close>
  numbers has \<open>n + 1\<close> candidates, all of specificity at most 2 and none with an object
  in second place, and \<open>buildRuleSets\<close> returns \<open>n + 1\<close> rule sets: more than
  \<open>MAX_CONFIG_COMBINATIONS\<close> as soon as \<open>n\<close> is 17, and without bound as \<open>n\<close> grows.
\<close>

theorem buildRuleSets_rounds_grow_with_enum:
  "length (snd (buildRuleSets (fst (enum_registry n)) (snd (enum_registry n)))) = Suc n"
proof -
  let ?cs = "Severity 2 # map (\<lambda>i. Options [JNum 2, JNum (int i)]) [0..<n]"
  obtain items s where ni: "newItems ?cs empty_store = (items, s)"
    by (cases "newItems ?cs empty_store")
  from newItems_spec [OF ni]
  have items: "items = [0 ..< Suc n]"
    and cells: "\<And>a. cells s a =
            (if a < Suc n
             then \<lparr>config = ?cs ! a, specificity = config_specificity (?cs ! a),
                    errorCount = Undefined\<rparr>
             else cells empty_store a)"
    by (simp_all add: empty_store_def)
  have gen: "generateConfigsFromSchema (enum_schema n) = Inr ?cs"
    by (simp add: enum_schema_def generate_single_enum comp_def)
  have reg: "enum_registry n = ([(''r'', items)], s)"
    unfolding enum_registry_def gen makeRegistryItems_def object_keys_def
    using ni by (simp del: newItems.simps)
  have "eligible s items i" if "i < length items" for i
  proof (cases i)
    case 0
    then show ?thesis
      using that unfolding items
      by (simp add: eligible_def cells config_specificity_def second_is_object_def del: upt_Suc)
  next
    case (Suc j)
    then have "j < n" using that unfolding items by simp
    then show ?thesis
      using that Suc unfolding items
      by (simp add: eligible_def cells config_specificity_def second_is_object_def
          nth_append del: upt_Suc)
  qed
  then have "length (snd (buildRuleSets [(''r'', items)] s)) = length items"
    by (intro buildRuleSets_single) simp
  then show ?thesis by (simp add: reg items)
qed

section \<open>Properties of lintSourceCode\<close>

lemma lintRuleSet_snd:
  "snd (lintRuleSet verify cb tot config0 lintedRules filename ruleSet (p, i)) = Suc i"
  by (simp add: lintRuleSet_def Let_def)

lemma lintRuleSet_sourceCodes:
  "pass_sourceCodes (fst (lintRuleSet verify cb tot config0 lintedRules filename ruleSet (p, i)))
     = pass_sourceCodes p"
  by (simp add: lintRuleSet_def Let_def split: sum.splits prod.splits option.splits)

lemma lintRuleSet_calls:
  "pass_calls (fst (lintRuleSet verify cb tot config0 lintedRules filename ruleSet (p, i)))
     = pass_calls p @ [(filename, i)]"
  by (simp add: lintRuleSet_def Let_def split: sum.splits prod.splits option.splits)

lemma lintRuleSet_absorb:
  assumes "same_outcome p q"
  shows "same_outcome
           (fst (lintRuleSet verify cb tot config0 lintedRules filename ruleSet (p, i)))
           (fst (lintRuleSet (absorbFailures verify) cb tot config0 lintedRules filename ruleSet (q, i)))"
  using assms
  by (cases "verify (case map_of (pass_sourceCodes q) filename of Some v \<Rightarrow> v | None \<Rightarrow> None)
               (config0\<lparr>rules := ruleSet\<rparr>)")
     (simp_all add: same_outcome_def lintRuleSet_def absorbFailures_def Let_def
        split: prod.splits option.splits)

lemma fold_lintRuleSet_absorb:
  assumes "same_outcome p q"
  shows "same_outcome
           (fst (fold (lintRuleSet verify cb tot config0 lintedRules filename) ruleSets (p, i)))
           (fst (fold (lintRuleSet (absorbFailures verify) cb tot config0 lintedRules filename) ruleSets (q, i)))"
  using assms
proof (induction ruleSets arbitrary: p q i)
  case Nil
  then show ?case by simp
next
  case (Cons rs ruleSets)
  let ?a = "lintRuleSet verify cb tot config0 lintedRules filename rs (p, i)"
  let ?b = "lintRuleSet (absorbFailures verify) cb tot config0 lintedRules filename rs (q, i)"
  have a: "?a = (fst ?a, Suc i)" and b: "?b = (fst ?b, Suc i)"
    by (simp_all add: prod_eq_iff lintRuleSet_snd)
  have "same_outcome (fst ?a) (fst ?b)" by (rule lintRuleSet_absorb [OF Cons.prems])
  from Cons.IH [OF this, of "Suc i"] show ?case
    by (simp only: fold_Cons comp_apply) (metis a b)
qed

lemma fold_lintRuleSet_sourceCodes:
  "pass_sourceCodes (fst (fold (lintRuleSet verify cb tot config0 lintedRules filename) ruleSets (p, i)))
     = pass_sourceCodes p"
proof (induction ruleSets arbitrary: p i)
  case Nil
  show ?case by simp
next
  case (Cons rs ruleSets)
  let ?a = "lintRuleSet verify cb tot config0 lintedRules filename rs (p, i)"
  have a: "?a = (fst ?a, Suc i)" by (simp add: prod_eq_iff lintRuleSet_snd)
  have "pass_sourceCodes (fst (fold (lintRuleSet verify cb tot config0 lintedRules filename)
           ruleSets (fst ?a, Suc i))) = pass_sourceCodes p"
    by (simp add: Cons.IH lintRuleSet_sourceCodes)
  then show ?case by (simp only: fold_Cons comp_apply) (metis a)
qed

lemma fold_lintRuleSet_calls:
  "length (pass_calls (fst (fold (lintRuleSet verify cb tot config0 lintedRules filename) ruleSets (p, i))))
     = length (pass_calls p) + length ruleSets"
proof (induction ruleSets arbitrary: p i)
  case Nil
  show ?case by simp
next
  case (Cons rs ruleSets)
  let ?a = "lintRuleSet verify cb tot config0 lintedRules filename rs (p, i)"
  have a: "?a = (fst ?a, Suc i)" by (simp add: prod_eq_iff lintRuleSet_snd)
  have "length (pass_calls (fst (fold (lintRuleSet verify cb tot config0 lintedRules filename)
           ruleSets (fst ?a, Suc i)))) = length (pass_calls p) + length (rs # ruleSets)"
    by (simp add: Cons.IH lintRuleSet_calls)
  then show ?case by (simp only: fold_Cons comp_apply) (metis a)
qed

lemma lintFile_absorb:
  assumes "same_outcome p q"
  shows "same_outcome (lintFile verify cb tot config0 lintedRules ruleSets filename p)
           (lintFile (absorbFailures verify) cb tot config0 lintedRules ruleSets filename q)"
  using fold_lintRuleSet_absorb [OF assms, of verify cb tot config0 lintedRules filename ruleSets 0]
  by (simp add: lintFile_def Let_def same_outcome_def)

lemma lintFile_sourceCodes:
  "pass_sourceCodes (lintFile verify cb tot config0 lintedRules ruleSets filename p)
     = AList.update filename None (pass_sourceCodes p)"
  by (simp add: lintFile_def Let_def fold_lintRuleSet_sourceCodes)

lemma lintFile_calls:
  "length (pass_calls (lintFile verify cb tot config0 lintedRules ruleSets filename p))
     = length (pass_calls p) + length ruleSets"
  by (simp add: lintFile_def Let_def fold_lintRuleSet_calls)

lemma fold_lintFile_absorb:
  assumes "same_outcome p q"
  shows "same_outcome (fold (lintFile verify cb tot config0 lintedRules ruleSets) filenames p)
           (fold (lintFile (absorbFailures verify) cb tot config0 lintedRules ruleSets) filenames q)"
  using assms
  by (induction filenames arbitrary: p q) (simp_all add: lintFile_absorb)

lemma fold_lintFile_sourceCodes:
  "pass_sourceCodes (fold (lintFile verify cb tot config0 lintedRules ruleSets) filenames p)
     = fold (\<lambda>filename sc. AList.update filename None sc) filenames (pass_sourceCodes p)"
  by (induction filenames arbitrary: p) (simp_all add: lintFile_sourceCodes)

lemma fold_lintFile_calls:
  "length (pass_calls (fold (lintFile verify cb tot config0 lintedRules ruleSets) filenames p))
     = length (pass_calls p) + length filenames * length ruleSets"
  by (induction filenames arbitrary: p) (simp_all add: lintFile_calls)

lemma fold_update_None_keys:
  "set fs \<subseteq> fst ` set sc \<Longrightarrow>
     map fst (fold (\<lambda>filename sc. AList.update filename None sc) fs sc) = map fst sc"
proof (induction fs arbitrary: sc)
  case Nil
  show ?case by simp
next
  case (Cons f fs)
  have k: "map fst (AList.update f None sc) = map fst sc"
    using Cons.prems by (simp add: AList.update_keys)
  then have "set fs \<subseteq> fst ` set (AList.update f None sc)"
    using Cons.prems by (metis list.set_map set_subset_Cons subset_trans)
  from Cons.IH [OF this] k show ?case by simp
qed

lemma fold_update_None_lookup:
  "map_of (fold (\<lambda>filename sc. AList.update filename None sc) fs sc) f =
     (if f \<in> set fs then Some None else map_of sc f)"
  by (induction fs arbitrary: sc) (auto simp: AList.update_conv')

text \<open>
  Claim C5. When \<open>verify\<close> throws for a (file, round) pair, that iteration leaves every
  item as it was (no counter is incremented), hands the error to \<open>console.error\<close> and
  goes on to the next round. For the whole pass: \<open>lintSourceCode\<close> returns the registry,
  the items, the \<open>sourceCodes\<close> and the progress it returns with the evaluator that
  has no finding where \<open>verify\<close> throws, and \<open>verify\<close> is called once for every
  (file, round) pair whatever it throws.
\<close>

theorem lintSourceCode_absorbs_verify_failure:
  "(verify (case map_of (pass_sourceCodes p) filename of Some v \<Rightarrow> v | None \<Rightarrow> None)
      (config0\<lparr>rules := ruleSet\<rparr>) = Inl err \<longrightarrow>
      pass_store (fst (lintRuleSet verify cb tot config0 lintedRules filename ruleSet (p, ruleSetIdx)))
        = pass_store p \<and>
      pass_console (fst (lintRuleSet verify cb tot config0 lintedRules filename ruleSet (p, ruleSetIdx)))
        = pass_console p @ [ByVerify err] \<and>
      snd (lintRuleSet verify cb tot config0 lintedRules filename ruleSet (p, ruleSetIdx))
        = Suc ruleSetIdx) \<and>
   fst (lintSourceCode verify cb config0 thisRules sourceCodes s) =
     fst (lintSourceCode (absorbFailures verify) cb config0 thisRules sourceCodes s) \<and>
   same_outcome (snd (lintSourceCode verify cb config0 thisRules sourceCodes s))
     (snd (lintSourceCode (absorbFailures verify) cb config0 thisRules sourceCodes s)) \<and>
   length (pass_calls (snd (lintSourceCode verify cb config0 thisRules sourceCodes s))) =
     length (object_keys sourceCodes) * length (snd (buildRuleSets (assign [] thisRules) s))"
proof (intro conjI impI)
  assume "verify (case map_of (pass_sourceCodes p) filename of Some v \<Rightarrow> v | None \<Rightarrow> None)
      (config0\<lparr>rules := ruleSet\<rparr>) = Inl err"
  then show "pass_store (fst (lintRuleSet verify cb tot config0 lintedRules filename ruleSet (p, ruleSetIdx)))
        = pass_store p"
    and "pass_console (fst (lintRuleSet verify cb tot config0 lintedRules filename ruleSet (p, ruleSetIdx)))
        = pass_console p @ [ByVerify err]"
    by (simp_all add: lintRuleSet_def Let_def)
next
  show "snd (lintRuleSet verify cb tot config0 lintedRules filename ruleSet (p, ruleSetIdx))
        = Suc ruleSetIdx"
    by (rule lintRuleSet_snd)
next
  show "fst (lintSourceCode verify cb config0 thisRules sourceCodes s) =
     fst (lintSourceCode (absorbFailures verify) cb config0 thisRules sourceCodes s)"
    by (simp add: lintSourceCode_def Let_def split: prod.splits)
next
  show "same_outcome (snd (lintSourceCode verify cb config0 thisRules sourceCodes s))
     (snd (lintSourceCode (absorbFailures verify) cb config0 thisRules sourceCodes s))"
    by (simp add: lintSourceCode_def Let_def split: prod.splits)
       (intro allI impI fold_lintFile_absorb, simp add: same_outcome_def)
next
  show "length (pass_calls (snd (lintSourceCode verify cb config0 thisRules sourceCodes s))) =
     length (object_keys sourceCodes) * length (snd (buildRuleSets (assign [] thisRules) s))"
    by (simp add: lintSourceCode_def Let_def fold_lintFile_calls split: prod.splits)
qed

theorem lintSourceCode_absorbs_verify_failure_witness:
  "(\<lambda>(src :: unit option) (cfg :: eslintConfig).
       if map_of (rules cfg) ''semi'' = Some (Severity 2)
       then (Inl ''parse error'' :: string + string list) else Inr [''semi''])
     (Some ()) \<lparr>rules = [(''semi'', Severity 2)], extends = None\<rparr> = Inl ''parse error'' \<and>
   pass_console (fst (lintRuleSet
     (\<lambda>(src :: unit option) (cfg :: eslintConfig).
       if map_of (rules cfg) ''semi'' = Some (Severity 2)
       then (Inl ''parse error'' :: string + string list) else Inr [''semi''])
     False 2 \<lparr>rules = [], extends = None\<rparr> [(''semi'', [0, 1])] ''a.js''
     [(''semi'', Severity 2)]
     (\<lparr>pass_store = item_store
          [\<lparr>config = Severity 2, specificity = 1, errorCount = Count 0\<rparr>,
           \<lparr>config = Options [JNum 2, JStr ''always''], specificity = 2, errorCount = Count 0\<rparr>],
       pass_sourceCodes = [(''a.js'', Some ())], pass_console = [], pass_calls = [],
       pass_progress = []\<rparr>, 0))) = [ByVerify ''parse error''] \<and>
   length (pass_calls (snd (lintSourceCode
     (\<lambda>(src :: unit option) (cfg :: eslintConfig).
       if map_of (rules cfg) ''semi'' = Some (Severity 2)
       then (Inl ''parse error'' :: string + string list) else Inr [''semi''])
     False \<lparr>rules = [], extends = None\<rparr> [(''semi'', [0, 1])] [(''a.js'', Some ())]
     (item_store
          [\<lparr>config = Severity 2, specificity = 1, errorCount = Undefined\<rparr>,
           \<lparr>config = Options [JNum 2, JStr ''always''], specificity = 2,
              errorCount = Undefined\<rparr>])))) = 2"
proof -
  let ?V = "\<lambda>(src :: unit option) (cfg :: eslintConfig).
       if map_of (rules cfg) ''semi'' = Some (Severity 2)
       then (Inl ''parse error'' :: string + string list) else Inr [''semi'']"
  let ?p0 = "\<lparr>pass_store = item_store
          [\<lparr>config = Severity 2, specificity = 1, errorCount = Count 0\<rparr>,
           \<lparr>config = Options [JNum 2, JStr ''always''], specificity = 2, errorCount = Count 0\<rparr>],
       pass_sourceCodes = [(''a.js'', Some ())], pass_console = [] :: string caught list,
       pass_calls = [], pass_progress = []\<rparr>"
  let ?st = "item_store
          [\<lparr>config = Severity 2, specificity = 1, errorCount = Undefined\<rparr>,
           \<lparr>config = Options [JNum 2, JStr ''always''], specificity = 2,
              errorCount = Undefined\<rparr>]"
  let ?cfg = "\<lparr>rules = [], extends = None\<rparr>"
  have h: "?V (case map_of (pass_sourceCodes ?p0) ''a.js'' of Some v \<Rightarrow> v | None \<Rightarrow> None)
      (?cfg\<lparr>rules := [(''semi'', Severity 2)]\<rparr>) = Inl ''parse error''"
    by simp
  note T = lintSourceCode_absorbs_verify_failure [where verify = ?V and p = ?p0
      and filename = "''a.js''" and ?config0.0 = ?cfg and ruleSet = "[(''semi'', Severity 2)]"
      and err = "''parse error''" and cb = False and tot = 2
      and lintedRules = "[(''semi'', [0, 1])]" and ruleSetIdx = 0
      and thisRules = "[(''semi'', [0, 1])]" and sourceCodes = "[(''a.js'', Some ())]"
      and s = ?st]
  have rounds: "length (object_keys [(''a.js'', Some ())]) *
      length (snd (buildRuleSets (assign [] [(''semi'', [0, 1])]) ?st)) = 2"
    by (simp add: item_store_def assign_def object_keys_def buildRuleSets_def
        buildRuleSets_loop_unfold buildRound_def addRuleToRuleSet_def
        MAX_CONFIG_COMBINATIONS_def second_is_object_def Let_def)
  from T h rounds show ?thesis by simp
qed

text \<open>
  Claim C10. \<open>lintSourceCode\<close> writes to the \<open>sourceCodes\<close> object it is given: after the
  call the object has the keys it had, and every one of them holds \<open>null\<close>.
\<close>

theorem lintSourceCode_nulls_sourceCodes:
  "map fst (pass_sourceCodes (snd (lintSourceCode verify cb config0 thisRules sourceCodes s)))
     = map fst sourceCodes \<and>
   (\<forall>filename \<in> set (object_keys sourceCodes).
      map_of (pass_sourceCodes (snd (lintSourceCode verify cb config0 thisRules sourceCodes s)))
        filename = Some None)"
proof -
  have sc: "pass_sourceCodes (snd (lintSourceCode verify cb config0 thisRules sourceCodes s)) =
        fold (\<lambda>filename sc. AList.update filename None sc) (object_keys sourceCodes) sourceCodes"
    by (simp add: lintSourceCode_def Let_def fold_lintFile_sourceCodes split: prod.splits)
  have "set (object_keys sourceCodes) \<subseteq> fst ` set sourceCodes"
    by (simp add: object_keys_def)
  from fold_update_None_keys [OF this] show ?thesis
    unfolding sc by (simp add: fold_update_None_lookup)
qed

theorem lintSourceCode_nulls_sourceCodes_witness:
  "map fst (pass_sourceCodes (snd (lintSourceCode
      (\<lambda>(src :: unit option) (cfg :: eslintConfig). (Inr [] :: unit + string list))
      False \<lparr>rules = [], extends = None\<rparr> [(''semi'', [0])]
      [(''a.js'', Some ()), (''b.js'', Some ())]
      (item_store [\<lparr>config = Severity 2, specificity = 1, errorCount = Undefined\<rparr>]))))
     = [''a.js'', ''b.js''] \<and>
   map_of (pass_sourceCodes (snd (lintSourceCode
      (\<lambda>(src :: unit option) (cfg :: eslintConfig). (Inr [] :: unit + string list))
      False \<lparr>rules = [], extends = None\<rparr> [(''semi'', [0])]
      [(''a.js'', Some ()), (''b.js'', Some ())]
      (item_store [\<lparr>config = Severity 2, specificity = 1, errorCount = Undefined\<rparr>]))))
     ''b.js'' = Some None"
  using lintSourceCode_nulls_sourceCodes [where sourceCodes = "[(''a.js'', Some ()), (''b.js'', Some ())]"
      and verify = "\<lambda>(src :: unit option) (cfg :: eslintConfig). (Inr [] :: unit + string list)"
      and cb = False and ?config0.0 = "\<lparr>rules = [], extends = None\<rparr>"
      and thisRules = "[(''semi'', [0])]"
      and s = "item_store [\<lparr>config = Severity 2, specificity = 1, errorCount = Undefined\<rparr>]"]
  by (simp add: object_keys_def)

section \<open>Properties of configureRules\<close>

lemma map_of_rev_distinct:
  "distinct (map fst xs) \<Longrightarrow> map_of (rev xs) k = map_of xs k"
proof (induction xs)
  case Nil
  show ?case by simp
next
  case (Cons kv xs)
  obtain a b where kv: "kv = (a, b)" by (cases kv)
  from Cons.prems kv have "map_of xs a = None"
    by (simp add: map_of_eq_None_iff)
  moreover from Cons have "map_of (rev xs) k = map_of xs k" by simp
  ultimately show ?case
    unfolding kv by (cases "map_of xs k") (auto simp: map_add_def)
qed

lemma assign_lookup_rev:
  "map_of (assign target source) k =
     (case map_of (rev source) k of Some v \<Rightarrow> Some v | None \<Rightarrow> map_of target k)"
proof -
  have "map_of (fold (\<lambda>(k, v) acc. AList.update k v acc) source target) k =
        (case map_of (rev source) k of Some v \<Rightarrow> Some v | None \<Rightarrow> map_of target k)"
    for target :: "'a obj"
  proof (induction source arbitrary: target)
    case Nil
    show ?case by simp
  next
    case (Cons kv source)
    show ?case
      by (cases kv) (auto simp: Cons.IH AList.update_conv' map_add_def split: option.splits)
  qed
  then show ?thesis by (simp add: assign_def)
qed

lemma assign_lookup:
  "distinct (map fst source) \<Longrightarrow>
     map_of (assign target source) k =
       (case map_of source k of Some v \<Rightarrow> Some v | None \<Rightarrow> map_of target k)"
  by (simp add: assign_lookup_rev map_of_rev_distinct)

lemma disabled_lookup:
  "map_of (fold (\<lambda>ruleId d. AList.update ruleId (Severity 0) d) ids acc) r =
     (if r \<in> set ids then Some (Severity 0) else map_of acc r)"
  by (induction ids arbitrary: acc) (auto simp: AList.update_conv')

lemma disabled_distinct:
  "distinct (map fst acc) \<Longrightarrow>
     distinct (map fst (fold (\<lambda>ruleId d. AList.update ruleId (Severity 0) d) ids acc))"
  by (induction ids arbitrary: acc) (simp_all add: AList.distinct_update)

lemma selectRules_merge_order:
  assumes "distinct (map fst (rulesWithOneConfig s registry))"
    and "\<And>n. distinct (map fst (rulesWithSpecificity n s registry))"
  shows "map_of (selectRules rulesWithOneConfig rulesWithSpecificity s registry) ruleId =
     (case map_of (rulesWithOneConfig s registry) ruleId of
        Some c \<Rightarrow> Some c
      | None \<Rightarrow>
     (case map_of (rulesWithSpecificity 2 s registry) ruleId of
        Some c \<Rightarrow> Some c
      | None \<Rightarrow>
     (case map_of (rulesWithSpecificity 3 s registry) ruleId of
        Some c \<Rightarrow> Some c
      | None \<Rightarrow>
     (case map_of (rulesWithSpecificity 1 s registry) ruleId of
        Some c \<Rightarrow> Some c
      | None \<Rightarrow> if ruleId \<in> set (object_keys registry) then Some (Severity 0) else None))))"
proof -
  have d: "map_of (assign [] (fold (\<lambda>ruleId d. AList.update ruleId (Severity 0) d)
              (object_keys registry) [])) ruleId =
           (if ruleId \<in> set (object_keys registry) then Some (Severity 0) else None)"
    by (simp add: assign_lookup disabled_distinct disabled_lookup)
  show ?thesis
    using assms
    by (simp add: selectRules_def Let_def assign_lookup d split: option.splits)
qed

text \<open>The definitions a closed term of the selection, and of the whole of
  \<open>configureRules\<close>, is computed with.\<close>

lemmas eval_rules =
  selectRules_def getRulesWithOneConfig_def getRulesWithSpecificity_def createConfig_def
  filterBySpecificity_def stripFailingConfigs_def stripExtraConfigs_def assign_def
  object_keys_def item_store_def Let_def

lemmas eval_pass =
  configured_def configureRules_def inquirerUi_complete_def getSourceCodeOfFiles_def createConfigsForCoreRules_def
  generateConfigsFromSchema_def addOption_def addEnums_def combineArrays_def explodeArray_def
  addErrorSeverity_def unshifted_def makeRegistryItems_def empty_store_def config_specificity_def
  lintSourceCode_def lintFile_def lintRuleSet_def increment_def
  buildRuleSets_def buildRuleSets_loop_unfold buildRound_def addRuleToRuleSet_def
  MAX_CONFIG_COMBINATIONS_def second_is_object_def concat_arg_def

text \<open>
  Claim C1 fails on the code. The merge order is the claim's (\<open>selectRules_merge_order\<close>),
  but the selection is not made after elimination: \<open>configureRules\<close> does not keep the
  registry \<open>stripFailingConfigs\<close> returns. First registry: after the evaluation pass the
  rule \<open>r\<close> has the candidates \<open>2\<close>, \<open>[2, "a"]\<close>, \<open>[2, "b"]\<close>, \<open>[2, "c"]\<close>, \<open>[2, "a", "x"]\<close>,
  \<open>[2, "b", "x"]\<close>, \<open>[2, "c", "x"]\<close> with 0, 1, 0, 2, 0, 1, 1 findings. Elimination leaves
  one candidate at each of the specificities 1, 2 and 3, and the claim selects
  \<open>[2, "b"]\<close>; the code selects the bare severity. Second registry: \<open>r\<close> has the bare
  severity with no finding and \<open>[2, "a"]\<close> with one. Elimination leaves the bare severity
  alone, which the claim selects; the code selects the eliminated \<open>[2, "a"]\<close>.
\<close>

theorem selectRules_reads_uneliminated_registry:
  "stripFailingConfigs
     (item_store
        [\<lparr>config = Severity 2, specificity = 1, errorCount = Count 0\<rparr>,
         \<lparr>config = Options [JNum 2, JStr ''a''], specificity = 2, errorCount = Count 1\<rparr>,
         \<lparr>config = Options [JNum 2, JStr ''b''], specificity = 2, errorCount = Count 0\<rparr>,
         \<lparr>config = Options [JNum 2, JStr ''c''], specificity = 2, errorCount = Count 2\<rparr>,
         \<lparr>config = Options [JNum 2, JStr ''a'', JStr ''x''], specificity = 3, errorCount = Count 0\<rparr>,
         \<lparr>config = Options [JNum 2, JStr ''b'', JStr ''x''], specificity = 3, errorCount = Count 1\<rparr>,
         \<lparr>config = Options [JNum 2, JStr ''c'', JStr ''x''], specificity = 3, errorCount = Count 1\<rparr>])
     [(''r'', [0, 1, 2, 3, 4, 5, 6])] = [(''r'', [0, 2, 4])] \<and>
   selectRules getRulesWithOneConfig getRulesWithSpecificity
     (item_store
        [\<lparr>config = Severity 2, specificity = 1, errorCount = Count 0\<rparr>,
         \<lparr>config = Options [JNum 2, JStr ''a''], specificity = 2, errorCount = Count 1\<rparr>,
         \<lparr>config = Options [JNum 2, JStr ''b''], specificity = 2, errorCount = Count 0\<rparr>,
         \<lparr>config = Options [JNum 2, JStr ''c''], specificity = 2, errorCount = Count 2\<rparr>,
         \<lparr>config = Options [JNum 2, JStr ''a'', JStr ''x''], specificity = 3, errorCount = Count 0\<rparr>,
         \<lparr>config = Options [JNum 2, JStr ''b'', JStr ''x''], specificity = 3, errorCount = Count 1\<rparr>,
         \<lparr>config = Options [JNum 2, JStr ''c'', JStr ''x''], specificity = 3, errorCount = Count 1\<rparr>])
     [(''r'', [0, 1, 2, 3, 4, 5, 6])] = [(''r'', Severity 2)] \<and>
   stripFailingConfigs
     (item_store [\<lparr>config = Severity 2, specificity = 1, errorCount = Count 0\<rparr>,
                  \<lparr>config = Options [JNum 2, JStr ''a''], specificity = 2,
                     errorCount = Count 1\<rparr>])
     [(''r'', [0, 1])] = [(''r'', [0])] \<and>
   selectRules getRulesWithOneConfig getRulesWithSpecificity
     (item_store [\<lparr>config = Severity 2, specificity = 1, errorCount = Count 0\<rparr>,
                  \<lparr>config = Options [JNum 2, JStr ''a''], specificity = 2,
                     errorCount = Count 1\<rparr>])
     [(''r'', [0, 1])] = [(''r'', Options [JNum 2, JStr ''a''])]"
  by (simp add: eval_rules)

text \<open>The first registry from the start: \<open>configureRules\<close>, with a Registry that has
  the two methods, for the rule \<open>r\<close> with the
  schema \<open>[{enum: ["a", "b", "c"]}, {enum: ["x"]}]\<close> and one file, in which the evaluator
  finds \<open>r\<close> violated under \<open>[2, "a"]\<close>, \<open>[2, "c"]\<close>, \<open>[2, "b", "x"]\<close> and \<open>[2, "c", "x"]\<close>.\<close>

lemma configureRules_selects_outside_survivors:
  "configured (configureRules None (Some (getRulesWithOneConfig, getRulesWithSpecificity))
      (\<lambda>(src :: string option) (cfg :: eslintConfig).
         if map_of (rules cfg) ''r'' \<in> {Some (Options [JNum 2, JStr ''a'']),
              Some (Options [JNum 2, JStr ''c'']),
              Some (Options [JNum 2, JStr ''b'', JStr ''x'']),
              Some (Options [JNum 2, JStr ''c'', JStr ''x''])}
         then (Inr [''r''] :: unit + string list) else Inr [])
      (\<lambda>filename. Some filename) [''f.js'']
      [(''r'', Some [OptSchema (Some [JStr ''a'', JStr ''b'', JStr ''c'']) None None,
                     OptSchema (Some [JStr ''x'']) None None])]
      \<lparr>rules = [], extends = None\<rparr>) =
   Inr ([(''r'', Severity 2)], [],
        [(''f.js'', 0), (''f.js'', 1), (''f.js'', 2), (''f.js'', 3), (''f.js'', 4),
         (''f.js'', 5), (''f.js'', 6)])"
  apply (simp add: configureRules_def inquirerUi_complete_def getSourceCodeOfFiles_def
      object_keys_def Let_def)
  apply (simp add: createConfigsForCoreRules_def generateConfigsFromSchema_def addOption_def
      addEnums_def combineArrays_def explodeArray_def addErrorSeverity_def unshifted_def
      object_keys_def Let_def concat_arg_def)
  apply (simp add: makeRegistryItems_def empty_store_def config_specificity_def object_keys_def
      Let_def)
  apply (simp add: eval_pass eval_rules)
  done




text \<open>
  The stop is owed to the two TypeErrors alone. With an \<open>inquirerUi\<close> whose \<open>complete\<close>
  returns and a Registry that has the two methods, \<open>configureRules\<close> goes on after
  the message and returns a configuration, \<open>{quotes: 2}\<close> for this catalogue, without a
  call of \<open>verify\<close>.
\<close>

lemma configureRules_goes_on_after_complete:
  "configured (configureRules (Some (PromptUi True))
      (Some (getRulesWithOneConfig, getRulesWithSpecificity))
      verify getSourceCodeOfFile []
      [(''quotes'', Some [OptSchema (Some [JStr ''always'', JStr ''never'']) None None])]
      config0) =
   Inr ([(''quotes'', Severity 2)],
        [ConsoleError ''Failed. No files resolved'', InquirerUiComplete], [])"
  by (simp add: eval_pass eval_rules)

section \<open>Properties of extendFromRecommended\<close>

lemma extend_fold_lookup:
  "map_of (fold
      (\<lambda>ruleId rs. case map_of recRules ruleId of
         Some c \<Rightarrow> if isEqual c (map_of rs ruleId) then AList.delete ruleId rs else rs
       | None \<Rightarrow> rs) ids rs0) r =
   (if r \<in> set ids \<and> (\<exists>c. map_of recRules r = Some c \<and> isEqual c (map_of rs0 r))
    then None else map_of rs0 r)"
proof (induction ids arbitrary: rs0)
  case Nil
  show ?case by simp
next
  case (Cons i ids)
  show ?case
  proof (cases "map_of recRules i")
    case None
    then show ?thesis using Cons.IH [of rs0] by auto
  next
    case (Some c)
    show ?thesis
    proof (cases "isEqual c (map_of rs0 i)")
      case True
      then show ?thesis
        using Some Cons.IH [of "AList.delete i rs0"]
        by (auto simp: AList.delete_conv')
    next
      case False
      then show ?thesis
        using Some Cons.IH [of rs0] by auto
    qed
  qed
qed

text \<open>
  Claim C9. For every selected configuration and recommended table: the emitted
  configuration extends \<open>eslint:recommended\<close> by name; a rule whose recommended
  severity is on (2) and whose selected configuration \<open>isEqual\<close> the recommended one is
  absent from the emitted rules; every other rule keeps its selected configuration.
\<close>

theorem extendFromRecommended_omits_equal_rules:
  "extends (extendFromRecommended isEqual recRules selected) = Some ''eslint:recommended'' \<and>
   (\<forall>ruleId. map_of (rules (extendFromRecommended isEqual recRules selected)) ruleId =
      (if (\<exists>c. map_of recRules ruleId = Some c \<and> recommended_on c \<and>
                isEqual c (map_of (rules selected) ruleId))
       then None else map_of (rules selected) ruleId))"
proof -
  have key: "r \<in> set (object_keys recRules)" if "map_of recRules r = Some c" for r c
    using that by (auto simp: object_keys_def dest: map_of_SomeD intro: rev_image_eqI)
  show ?thesis
    unfolding extendFromRecommended_def Let_def
    by (auto simp: extend_fold_lookup dest: key)
qed

text \<open>Scenario D of the specification, with structural equality for \<open>isEqual\<close>: the
  selected \<open>{"no-console": 2}\<close> and the recommended \<open>{"no-console": 2}\<close>.\<close>

lemma extendFromRecommended_scenario_D:
  "extendFromRecommended (\<lambda>c selected. selected = Some c) [(''no-console'', Severity 2)]
     \<lparr>rules = [(''no-console'', Severity 2)], extends = None\<rparr> =
   \<lparr>rules = [], extends = Some ''eslint:recommended''\<rparr>"
  by (simp add: extendFromRecommended_def object_keys_def recommended_on_def)

end
